theory Spec2Isabelle
  imports Main
begin

section \<open>Strings\<close>

text \<open>
  A JavaScript string is a sequence of UTF-16 code units. The model uses \<open>string\<close>, whose
  characters are the code units \<open>0x00\<close> to \<open>0xFF\<close>; every regular expression of
  \<^verbatim>\<open>server.js\<close> has ASCII classes and literals only, and none has the \<^verbatim>\<open>u\<close> flag, so a
  code unit outside ASCII is never matched by a literal or by a positive class.
\<close>

definition lower_letters :: string where
  "lower_letters = ''abcdefghijklmnopqrstuvwxyz''"

definition upper_letters :: string where
  "upper_letters = ''ABCDEFGHIJKLMNOPQRSTUVWXYZ''"

definition digit_chars :: string where
  "digit_chars = ''0123456789''"

text \<open>The class \<^verbatim>\<open>\d\<close>.\<close>

definition is_digit :: "char \<Rightarrow> bool" where
  "is_digit c = (c \<in> set digit_chars)"

text \<open>
  The flag \<^verbatim>\<open>i\<close> compares canonicalised characters. Without the flag \<^verbatim>\<open>u\<close> a code unit
  of \<open>128\<close> or more is never canonicalised to an ASCII one, so against the ASCII letters of
  the patterns only ASCII case folding counts.
\<close>

definition ascii_upper :: "char \<Rightarrow> char" where
  "ascii_upper c = (case map_of (zip lower_letters upper_letters) c of Some u \<Rightarrow> u | None \<Rightarrow> c)"

text \<open>\<^verbatim>\<open>String.prototype.toLowerCase\<close> on the code units below \<open>0x100\<close>.\<close>

definition toLowerCase_char :: "char \<Rightarrow> char" where
  "toLowerCase_char c =
     (case map_of (zip upper_letters lower_letters) c of
        Some l \<Rightarrow> l
      | None \<Rightarrow>
          (let n = (of_char c :: nat)
           in if 192 \<le> n \<and> n \<le> 222 \<and> n \<noteq> 215 then char_of (n + 32) else c))"

definition toLowerCase :: "string \<Rightarrow> string" where
  "toLowerCase s = map toLowerCase_char s"

text \<open>The white space and line terminators that \<^verbatim>\<open>String.prototype.trim\<close> removes.\<close>

definition is_space :: "char \<Rightarrow> bool" where
  "is_space c = ((of_char c :: nat) \<in> {9, 10, 11, 12, 13, 32, 160})"

definition trim :: "string \<Rightarrow> string" where
  "trim s = rev (dropWhile is_space (rev (dropWhile is_space s)))"

definition startsWith :: "string \<Rightarrow> string \<Rightarrow> bool" where
  "startsWith s p = (take (length p) s = p)"

text \<open>\<^verbatim>\<open>s.split("/")\<close>: always at least one segment.\<close>

fun split_slash :: "string \<Rightarrow> string list" where
  "split_slash [] = [[]]"
| "split_slash (c # cs) =
     (if c = CHR ''/'' then [] # split_slash cs
      else (case split_slash cs of [] \<Rightarrow> [[c]] | seg # segs \<Rightarrow> (c # seg) # segs))"

text \<open>
  Truthiness of a value that is a string or \<^verbatim>\<open>undefined\<close>: \<^verbatim>\<open>x || d\<close> is \<open>x\<close> unless
  \<open>x\<close> is absent or the empty string.
\<close>

definition or_else :: "string option \<Rightarrow> string \<Rightarrow> string" where
  "or_else x d = (case x of None \<Rightarrow> d | Some s \<Rightarrow> if s = [] then d else s)"

definition truthy :: "string option \<Rightarrow> bool" where
  "truthy x = (case x of None \<Rightarrow> False | Some s \<Rightarrow> s \<noteq> [])"

section \<open>Global replacement\<close>

text \<open>
  \<^verbatim>\<open>s.replace(/re/g, rep)\<close> for a replacement text without \<^verbatim>\<open>$\<close>: scan from the left; where
  the expression matches, emit \<open>rep\<close> and go on after the match, otherwise copy one
  character. A matcher gives the length of the match at the start of its argument. After an
  empty match the scan copies one character, as \<^verbatim>\<open>lastIndex\<close> is advanced by one.
\<close>

function gsub :: "(string \<Rightarrow> nat option) \<Rightarrow> string \<Rightarrow> string \<Rightarrow> string" where
  "gsub m rep [] = []"
| "gsub m rep (c # cs) =
     (case m (c # cs) of
        None \<Rightarrow> c # gsub m rep cs
      | Some n \<Rightarrow> if n = 0 then rep @ c # gsub m rep cs
                  else rep @ gsub m rep (drop n (c # cs)))"
  by pat_completeness auto
termination
  by (relation "measure (\<lambda>(m, rep, s). length s)") auto

text \<open>A literal pattern.\<close>

definition lit :: "string \<Rightarrow> string \<Rightarrow> nat option" where
  "lit pat s = (if startsWith s pat then Some (length pat) else None)"

text \<open>\<^verbatim>\<open>(\d+)>\<close>: the greedy run of digits, which must not be empty, and the closing bracket.\<close>

definition digits_gt :: "string \<Rightarrow> nat option" where
  "digits_gt s =
     (let ds = takeWhile is_digit s
      in if ds \<noteq> [] \<and> startsWith (dropWhile is_digit s) ''>'' then Some (length ds + 1) else None)"

text \<open>
  \<^verbatim>\<open>/<@!?(\d+)>/\<close>. The optional \<^verbatim>\<open>!\<close> is taken when it is there; giving it back would
  leave \<^verbatim>\<open>\d+\<close> facing the \<^verbatim>\<open>!\<close>, so backtracking finds nothing more.
\<close>

definition user_mention :: "string \<Rightarrow> nat option" where
  "user_mention s =
     (if startsWith s ''<@!'' then map_option (\<lambda>n. n + 3) (digits_gt (drop 3 s))
      else if startsWith s ''<@'' then map_option (\<lambda>n. n + 2) (digits_gt (drop 2 s))
      else None)"

text \<open>\<^verbatim>\<open>/<@&(\d+)>/\<close>\<close>

definition role_mention :: "string \<Rightarrow> nat option" where
  "role_mention s =
     (if startsWith s ''<@&'' then map_option (\<lambda>n. n + 3) (digits_gt (drop 3 s)) else None)"

text \<open>\<^verbatim>\<open>/<#(\d+)>/\<close>\<close>

definition channel_ref :: "string \<Rightarrow> nat option" where
  "channel_ref s =
     (if startsWith s ''<#'' then map_option (\<lambda>n. n + 2) (digits_gt (drop 2 s)) else None)"

section \<open>The content sanitizer\<close>

text \<open>
  \<^verbatim>\<open>sanitizeContent\<close>: five global replacements, in the order of the source. The first two
  patterns are the six characters backslash, \<^verbatim>\<open>u003c\<close> (and \<^verbatim>\<open>u003e\<close>).
\<close>

definition esc_lt :: string where
  "esc_lt = CHR 0x5C # ''u003c''"

definition esc_gt :: string where
  "esc_gt = CHR 0x5C # ''u003e''"

definition sanitizeContent :: "string \<Rightarrow> string" where
  "sanitizeContent text =
     gsub channel_ref ''#channel''
       (gsub role_mention ''@role''
         (gsub user_mention ''@user''
           (gsub (lit esc_gt) ''>''
             (gsub (lit esc_lt) ''<'' text))))"

section \<open>The attachment mirror\<close>

text \<open>\<^verbatim>\<open>[a-z0-9._-]\<close> under the flag \<^verbatim>\<open>i\<close>.\<close>

definition safe_char :: "char \<Rightarrow> bool" where
  "safe_char c = (c \<in> set (lower_letters @ upper_letters @ digit_chars @ ''._-''))"

text \<open>\<^verbatim>\<open>.replace(/[^a-z0-9._-]+/gi, "_")\<close>: every maximal run of other characters becomes one underscore.\<close>

function collapse_unsafe :: "string \<Rightarrow> string" where
  "collapse_unsafe [] = []"
| "collapse_unsafe (c # cs) =
     (if safe_char c then c # collapse_unsafe cs
      else CHR ''_'' # collapse_unsafe (dropWhile (\<lambda>d. \<not> safe_char d) cs))"
  by pat_completeness auto
termination
  by (relation "measure length") (auto simp: length_dropWhile_le less_Suc_eq_le)

text \<open>
  \<^verbatim>\<open>.replace(/^_+|_+$/g, "")\<close>: the first alternative matches the leading run of
  underscores at position 0 only, the second the run of underscores that reaches the end.
\<close>

definition trim_underscores :: "string \<Rightarrow> string" where
  "trim_underscores s =
     rev (dropWhile (\<lambda>c. c = CHR ''_'') (rev (dropWhile (\<lambda>c. c = CHR ''_'') s)))"

definition safeFilename :: "string \<Rightarrow> string" where
  "safeFilename name = take 180 (trim_underscores (collapse_unsafe name))"

text \<open>
  Node's \<^verbatim>\<open>path.join(dir, name)\<close> for an absolute, normalised \<open>dir\<close>, on a POSIX host. A path
  is the list of its segments; empty segments and \<^verbatim>\<open>.\<close> are dropped and \<^verbatim>\<open>..\<close> removes the
  segment before it.
\<close>

type_synonym path = "string list"

definition path_step :: "path \<Rightarrow> string \<Rightarrow> path" where
  "path_step p seg =
     (if seg = [] \<or> seg = ''.'' then p else if seg = ''..'' then butlast p else p @ [seg])"

definition path_join :: "path \<Rightarrow> string \<Rightarrow> path" where
  "path_join dir name = foldl path_step dir (split_slash name)"

text \<open>
  What a request can observe: the files and directories on disk, what each URL answers,
  and the log of the URLs fetched so far.
\<close>

record http_response =
  status :: nat
  body :: string

text \<open>\<^verbatim>\<open>Response.ok\<close>\<close>

definition ok :: "http_response \<Rightarrow> bool" where
  "ok r = (200 \<le> status r \<and> status r \<le> 299)"

datatype fetch_result = NetworkError | Response http_response

record world =
  files :: "path \<rightharpoonup> string"
  dirs :: "path set"
  remote :: "string \<Rightarrow> fetch_result"
  fetched :: "string list"

text \<open>What the mirror can throw: the rejection of \<^verbatim>\<open>fetch\<close>, its own error, and a failed write.\<close>

datatype error = FetchRejected | MirrorFetchFailed nat | WriteFailed

definition existsSync :: "world \<Rightarrow> path \<Rightarrow> bool" where
  "existsSync w p = (p \<in> dom (files w) \<or> p \<in> dirs w)"

text \<open>\<^verbatim>\<open>fetch(url)\<close>: the answer, and the world with the call logged.\<close>

definition fetch :: "string \<Rightarrow> world \<Rightarrow> fetch_result \<times> world" where
  "fetch url w = (remote w url, w\<lparr>fetched := fetched w @ [url]\<rparr>)"

text \<open>
  \<^verbatim>\<open>fs.writeFileSync\<close> creates no directory: it throws unless the parent is one. The other
  ways a write can fail (a name too long for the file system, permissions, a full disk) are
  not modelled: there the model writes where the code throws.
\<close>

definition writeFileSync :: "path \<Rightarrow> string \<Rightarrow> world \<Rightarrow> error + world" where
  "writeFileSync p buf w =
     (if butlast p \<in> dirs w \<and> p \<notin> dirs w then Inr (w\<lparr>files := (files w)(p \<mapsto> buf)\<rparr>)
      else Inl WriteFailed)"

record mirror_args =
  url :: string
  messageId :: string
  filename :: "string option"

definition baseName :: "mirror_args \<Rightarrow> string" where
  "baseName a =
     safeFilename (or_else (filename a) (or_else (Some (last (split_slash (url a)))) ''download''))"

definition localName :: "mirror_args \<Rightarrow> string" where
  "localName a = messageId a @ ''-'' @ baseName a"

definition localPath :: "path \<Rightarrow> mirror_args \<Rightarrow> path" where
  "localPath DOWNLOADS_DIR a = path_join DOWNLOADS_DIR (localName a)"

definition mirrorToLocal :: "path \<Rightarrow> mirror_args \<Rightarrow> world \<Rightarrow> (error + string) \<times> world" where
  "mirrorToLocal DOWNLOADS_DIR a w =
     (if existsSync w (localPath DOWNLOADS_DIR a) then (Inr (''/downloads/'' @ localName a), w)
      else (case fetch (url a) w of
              (NetworkError, w1) \<Rightarrow> (Inl FetchRejected, w1)
            | (Response r, w1) \<Rightarrow>
                if \<not> ok r then (Inl (MirrorFetchFailed (status r)), w1)
                else (case writeFileSync (localPath DOWNLOADS_DIR a) (body r) w1 of
                        Inl e \<Rightarrow> (Inl e, w1)
                      | Inr w2 \<Rightarrow> (Inr (''/downloads/'' @ localName a), w2))))"

section \<open>Media extraction\<close>

datatype media_type = Image | Gif | Video | File

record media_item =
  item_url :: string
  item_type :: media_type
  item_name :: "string option"
  item_contentType :: "string option"

text \<open>The array \<^verbatim>\<open>out\<close> and the set \<^verbatim>\<open>seen\<close> of \<^verbatim>\<open>getMediaFromMessage\<close>.\<close>

record media_acc =
  out :: "media_item list"
  seen :: "string set"

definition add :: "string \<Rightarrow> media_type \<Rightarrow> string option \<Rightarrow> string option \<Rightarrow> media_acc \<Rightarrow> media_acc" where
  "add u t nm ct acc =
     (if u = [] \<or> u \<in> seen acc then acc
      else \<lparr>out = out acc @ [\<lparr>item_url = u, item_type = t, item_name = nm, item_contentType = ct\<rparr>],
            seen = insert u (seen acc)\<rparr>)"

text \<open>A literal under the flag \<^verbatim>\<open>i\<close>, at the start of the text.\<close>

definition ci_match :: "string \<Rightarrow> string \<Rightarrow> bool" where
  "ci_match pat s =
     (length pat \<le> length s \<and> map ascii_upper (take (length pat) s) = map ascii_upper pat)"

text \<open>\<^verbatim>\<open>(\?|$)\<close>\<close>

definition query_or_end :: "string \<Rightarrow> bool" where
  "query_or_end s = (case s of [] \<Rightarrow> True | c # _ \<Rightarrow> c = CHR ''?'')"

text \<open>
  \<^verbatim>\<open>/\.(e1|e2|...)(\?|$)/i.test(s)\<close>: somewhere in \<open>s\<close> a dot, one of the extensions, and then
  a question mark or the end of the text.
\<close>

fun ext_test :: "string list \<Rightarrow> string \<Rightarrow> bool" where
  "ext_test exts [] = False"
| "ext_test exts (c # cs) =
     ((c = CHR ''.'' \<and> list_ex (\<lambda>e. ci_match e cs \<and> query_or_end (drop (length e) cs)) exts)
      \<or> ext_test exts cs)"

text \<open>\<^verbatim>\<open>/\.gif/i.test(s)\<close>\<close>

fun gif_anywhere :: "string \<Rightarrow> bool" where
  "gif_anywhere [] = False"
| "gif_anywhere (c # cs) = (ci_match ''.gif'' (c # cs) \<or> gif_anywhere cs)"

definition image_exts :: "string list" where
  "image_exts = [''png'', ''jpg'', ''jpeg'', ''gif'', ''webp'']"

definition video_exts :: "string list" where
  "video_exts = [''mp4'', ''webm'', ''mov'']"

record attachment =
  att_url :: string
  content_type :: "string option"
  att_filename :: "string option"

record embed =
  title :: "string option"
  description :: "string option"
  video_url :: "string option"
  image_url :: "string option"
  thumbnail_url :: "string option"

text \<open>
  One round of the loop over the attachments: mirror, fall back to the original URL when
  the mirror throws, classify, add.
\<close>

definition attachment_step :: "path \<Rightarrow> string \<Rightarrow> attachment \<Rightarrow> media_acc \<times> world \<Rightarrow> media_acc \<times> world" where
  "attachment_step DOWNLOADS_DIR mid a s =
     (case s of (acc, w) \<Rightarrow>
        let originalUrl = att_url a;
            ct = toLowerCase (or_else (content_type a) []);
            nm = or_else (att_filename a) ''download''
        in (case mirrorToLocal DOWNLOADS_DIR \<lparr>url = originalUrl, messageId = mid, filename = Some nm\<rparr> w of
              (r, w') \<Rightarrow>
                let localUrl = (case r of Inl e \<Rightarrow> originalUrl | Inr l \<Rightarrow> l)
                in if startsWith ct ''image/'' \<or> ext_test image_exts originalUrl
                   then (add localUrl
                           (if ct = ''image/gif'' \<or> ext_test [''gif''] originalUrl then Gif else Image)
                           None None acc, w')
                   else if startsWith ct ''video/'' \<or> ext_test video_exts originalUrl
                   then (add localUrl Video None None acc, w')
                   else (add localUrl File (Some nm) (Some ct) acc, w')))"

text \<open>One round of the loop over the embeds.\<close>

definition embed_step :: "embed \<Rightarrow> media_acc \<Rightarrow> media_acc" where
  "embed_step e acc =
     (if truthy (video_url e) then add (or_else (video_url e) []) Video None None acc
      else if truthy (image_url e)
      then add (or_else (image_url e) [])
             (if gif_anywhere (or_else (image_url e) []) then Gif else Image) None None acc
      else if truthy (thumbnail_url e)
      then add (or_else (thumbnail_url e) [])
             (if gif_anywhere (or_else (thumbnail_url e) []) then Gif else Image) None None acc
      else acc)"

text \<open>
  An upstream message, with the fields the server reads. An absent \<^verbatim>\<open>embeds\<close> or
  \<^verbatim>\<open>attachments\<close> is the empty list, as \<^verbatim>\<open>m.embeds || []\<close> makes it.
\<close>

record message =
  msg_id :: string
  msg_type :: nat
  content :: "string option"
  timestamp :: string
  embeds :: "embed list"
  attachments :: "attachment list"

definition getMediaFromMessage :: "path \<Rightarrow> message \<Rightarrow> world \<Rightarrow> media_item list \<times> world" where
  "getMediaFromMessage DOWNLOADS_DIR m w =
     (case foldl (\<lambda>s a. attachment_step DOWNLOADS_DIR (msg_id m) a s)
             (\<lparr>out = [], seen = {}\<rparr>, w) (attachments m) of
        (acc, w') \<Rightarrow> (out (foldl (\<lambda>acc e. embed_step e acc) acc (embeds m)), w'))"

section \<open>The feed\<close>

record announcement =
  ann_id :: string
  ann_content :: string
  ann_timestamp :: string
  media :: "media_item list"

text \<open>The first filter of the route.\<close>

definition qualifies :: "message \<Rightarrow> bool" where
  "qualifies m = (msg_type m = 0 \<or> length (embeds m) > 0 \<or> length (attachments m) > 0)"

definition fallback :: "message \<Rightarrow> string" where
  "fallback m =
     (case embeds m of
        [] \<Rightarrow> []
      | e # _ \<Rightarrow> (if truthy (title e) then or_else (title e) [] @ [CHR 0x0A] else [])
                 @ or_else (description e) [])"

definition contentRaw :: "message \<Rightarrow> string" where
  "contentRaw m =
     (if truthy (content m) \<and> length (trim (or_else (content m) [])) \<noteq> 0
      then or_else (content m) [] else or_else (Some (fallback m)) [])"

text \<open>The body of the \<^verbatim>\<open>map\<close> callback.\<close>

definition to_announcement :: "path \<Rightarrow> message \<Rightarrow> world \<Rightarrow> announcement \<times> world" where
  "to_announcement DOWNLOADS_DIR m w =
     (case getMediaFromMessage DOWNLOADS_DIR m w of
        (ms, w') \<Rightarrow>
          (\<lparr>ann_id = msg_id m, ann_content = trim (sanitizeContent (contentRaw m)),
            ann_timestamp = timestamp m, media = ms\<rparr>, w'))"

text \<open>
  \<^verbatim>\<open>Promise.all(messages.map(async ...))\<close>, taken in the order of the messages, each callback
  running to its end before the next one starts. The callbacks share the disk only; the
  results are in the order of the messages whatever the order of completion. The code
  starts every callback before any of them writes, so it differs from this model in the
  order of the fetches, and in the outcome when two messages of one answer have the same
  local name.
\<close>

fun map_messages :: "path \<Rightarrow> message list \<Rightarrow> world \<Rightarrow> announcement list \<times> world" where
  "map_messages DOWNLOADS_DIR [] w = ([], w)"
| "map_messages DOWNLOADS_DIR (m # ms) w =
     (case to_announcement DOWNLOADS_DIR m w of
        (a, w1) \<Rightarrow> (case map_messages DOWNLOADS_DIR ms w1 of (as, w2) \<Rightarrow> (a # as, w2)))"

text \<open>The second filter and the truncation.\<close>

definition nonempty :: "announcement \<Rightarrow> bool" where
  "nonempty a = (length (ann_content a) > 0 \<or> length (media a) > 0)"

definition cleaned :: "announcement list \<Rightarrow> announcement list" where
  "cleaned mapped = take 8 (filter nonempty mapped)"

text \<open>
  What \<^verbatim>\<open>JSON.parse\<close> gives for the upstream body. The elements of an array are message
  objects.
\<close>

datatype json =
  JNull | JBool bool | JNumber int | JString string
  | JObject "(string \<times> json) list" | JArray "message list"

text \<open>
  The process: its working directory, the two environment variables as the environment
  has them, and \<^verbatim>\<open>JSON.parse\<close>, which gives nothing where it throws.
\<close>

record config =
  cwd :: path
  env_token :: "string option"
  env_channel :: "string option"
  JSON_parse :: "string \<Rightarrow> json option"

definition DISCORD_BOT_TOKEN :: "config \<Rightarrow> string option" where
  "DISCORD_BOT_TOKEN cfg = map_option trim (env_token cfg)"

definition DISCORD_CHANNEL_ID :: "config \<Rightarrow> string option" where
  "DISCORD_CHANNEL_ID cfg = map_option trim (env_channel cfg)"

definition DOWNLOADS_DIR :: "config \<Rightarrow> path" where
  "DOWNLOADS_DIR cfg = cwd cfg @ [''downloads'']"

text \<open>The \<^verbatim>\<open>data\<close> of a result: parsed JSON, or the descriptor of a body that is not JSON.\<close>

datatype details = Data json | NonJSON string

record result =
  r_ok :: bool
  r_status :: nat
  r_data :: details

definition discordFetchJson :: "config \<Rightarrow> string \<Rightarrow> world \<Rightarrow> (error + result) \<times> world" where
  "discordFetchJson cfg u w =
     (case fetch u w of
        (NetworkError, w1) \<Rightarrow> (Inl FetchRejected, w1)
      | (Response r, w1) \<Rightarrow>
          (if body r = [] then Inr \<lparr>r_ok = ok r, r_status = status r, r_data = Data JNull\<rparr>
           else (case JSON_parse cfg (body r) of
                   None \<Rightarrow> Inr \<lparr>r_ok = False, r_status = 502, r_data = NonJSON (body r)\<rparr>
                 | Some j \<Rightarrow> Inr \<lparr>r_ok = ok r, r_status = status r, r_data = Data j\<rparr>), w1))"

text \<open>What the route sends.\<close>

datatype res_json =
  ErrorJson string
  | DiscordErrorJson nat details
  | ServerErrorJson error
  | AnnouncementsJson "announcement list"

record response =
  res_status :: nat
  cache_control :: "string option"
  res_json :: res_json

text \<open>\<^verbatim>\<open>requireEnv\<close>: the response it sends when it returns \<^verbatim>\<open>false\<close>.\<close>

definition requireEnv :: "config \<Rightarrow> response option" where
  "requireEnv cfg =
     (if \<not> truthy (DISCORD_BOT_TOKEN cfg)
      then Some \<lparr>res_status = 500, cache_control = None, res_json = ErrorJson ''Missing DISCORD_BOT_TOKEN''\<rparr>
      else if \<not> truthy (DISCORD_CHANNEL_ID cfg)
      then Some \<lparr>res_status = 500, cache_control = None, res_json = ErrorJson ''Missing DISCORD_CHANNEL_ID''\<rparr>
      else None)"

definition messages_url :: "config \<Rightarrow> string" where
  "messages_url cfg =
     ''https://discord.com/api/v10/channels/'' @ or_else (DISCORD_CHANNEL_ID cfg) [] @ ''/messages?limit=20''"

text \<open>\<^verbatim>\<open>Array.isArray(result.data) ? result.data : []\<close>\<close>

definition messages_of :: "details \<Rightarrow> message list" where
  "messages_of d = (case d of Data (JArray ms) \<Rightarrow> ms | _ \<Rightarrow> [])"

text \<open>The route \<^verbatim>\<open>GET /api/announcements\<close>.\<close>

definition announcements :: "config \<Rightarrow> world \<Rightarrow> response \<times> world" where
  "announcements cfg w =
     (case requireEnv cfg of
        Some r \<Rightarrow> (r, w)
      | None \<Rightarrow>
          (case discordFetchJson cfg (messages_url cfg) w of
             (Inl e, w1) \<Rightarrow>
               (\<lparr>res_status = 500, cache_control = None, res_json = ServerErrorJson e\<rparr>, w1)
           | (Inr res, w1) \<Rightarrow>
               if \<not> r_ok res
               then (\<lparr>res_status = r_status res, cache_control = None,
                      res_json = DiscordErrorJson (r_status res) (r_data res)\<rparr>, w1)
               else (case map_messages (DOWNLOADS_DIR cfg)
                            (filter qualifies (messages_of (r_data res))) w1 of
                       (mapped, w2) \<Rightarrow>
                         (\<lparr>res_status = 200, cache_control = Some ''no-store'',
                           res_json = AnnouncementsJson (cleaned mapped)\<rparr>, w2))))"

section \<open>Concrete inputs\<close>

text \<open>A mirror directory, and a disk that holds nothing but that directory.\<close>

definition ex_dir :: path where
  "ex_dir = [''srv'', ''downloads'']"

text \<open>
  The remote side: the message list of channel \<^verbatim>\<open>123\<close> with a given body, one attachment
  that is there, one that is gone, and no answer from any other URL.
\<close>

definition ex_remote :: "string \<Rightarrow> string \<Rightarrow> fetch_result" where
  "ex_remote api_body u =
     (if u = ''https://discord.com/api/v10/channels/123/messages?limit=20''
      then Response \<lparr>status = 200, body = api_body\<rparr>
      else if u = ''https://cdn.example/1/cat.gif'' then Response \<lparr>status = 200, body = ''GIF89a''\<rparr>
      else if u = ''https://cdn.example/1/gone.png'' then Response \<lparr>status = 404, body = []\<rparr>
      else NetworkError)"

definition ex_world_with :: "string \<Rightarrow> world" where
  "ex_world_with api_body =
     \<lparr>files = Map.empty, dirs = {[''srv'', ''downloads'']}, remote = ex_remote api_body, fetched = []\<rparr>"

definition ex_world :: world where
  "ex_world = ex_world_with ''[one]''"

definition ex_args :: mirror_args where
  "ex_args = \<lparr>url = ''https://cdn.example/1/cat.gif'', messageId = ''42'', filename = Some ''my cat.gif''\<rparr>"

text \<open>Attachments: a GIF without content type, and an image that the remote side has lost.\<close>

definition ex_gif :: attachment where
  "ex_gif = \<lparr>att_url = ''https://cdn.example/1/cat.gif'', content_type = None, att_filename = Some ''cat.gif''\<rparr>"

definition ex_gone :: attachment where
  "ex_gone = \<lparr>att_url = ''https://cdn.example/1/gone.png'', content_type = Some ''image/png'',
              att_filename = Some ''gone.png''\<rparr>"

text \<open>An embed with a video, an image and a thumbnail.\<close>

definition ex_embed :: embed where
  "ex_embed = \<lparr>title = Some ''Clip'', description = None,
               video_url = Some ''https://v.example/clip.mp4'',
               image_url = Some ''https://v.example/clip.jpg'',
               thumbnail_url = Some ''https://v.example/thumb.jpg''\<rparr>"

definition ex_msg :: message where
  "ex_msg = \<lparr>msg_id = ''42'', msg_type = 0, content = Some ''hi'', timestamp = ''2025-01-01T00:00:00Z'',
             embeds = [], attachments = [ex_gone]\<rparr>"

text \<open>A plain text message with a given id, and twenty of them.\<close>

definition ex_plain :: "string \<Rightarrow> message" where
  "ex_plain i = \<lparr>msg_id = i, msg_type = 0, content = Some ''news'', timestamp = ''2025-01-01T00:00:00Z'',
                 embeds = [], attachments = []\<rparr>"

definition ex_twenty :: "message list" where
  "ex_twenty = map ex_plain
     [''01'', ''02'', ''03'', ''04'', ''05'', ''06'', ''07'', ''08'', ''09'', ''10'',
      ''11'', ''12'', ''13'', ''14'', ''15'', ''16'', ''17'', ''18'', ''19'', ''20'']"

text \<open>The announcement of a plain text message.\<close>

definition ex_news :: "string \<Rightarrow> announcement" where
  "ex_news i = \<lparr>ann_id = i, ann_content = ''news'', ann_timestamp = ''2025-01-01T00:00:00Z'', media = []\<rparr>"

text \<open>A parser for the bodies of the examples, and a process with both variables set.\<close>

definition ex_parse :: "string \<Rightarrow> json option" where
  "ex_parse s =
     (if s = ''[one]'' then Some (JArray [ex_msg])
      else if s = ''[twenty]'' then Some (JArray ex_twenty)
      else if s = ''null'' then Some JNull
      else if s = ''{}'' then Some (JObject [])
      else None)"

definition ex_cfg :: config where
  "ex_cfg = \<lparr>cwd = [''srv''], env_token = Some ''secret'', env_channel = Some '' 123 '',
             JSON_parse = ex_parse\<rparr>"

section \<open>Evaluation\<close>

lemmas char_class_defs = safe_char_def lower_letters_def upper_letters_def digit_chars_def is_digit_def

lemmas safeFilename_eval = safeFilename_def trim_underscores_def char_class_defs

lemmas mirror_eval = mirrorToLocal_def existsSync_def localPath_def path_join_def path_step_def
  localName_def baseName_def or_else_def fetch_def ok_def writeFileSync_def safeFilename_eval

lemmas ex_defs = ex_dir_def ex_args_def ex_world_def ex_world_with_def ex_remote_def

section \<open>The sanitized file name\<close>

lemma collapse_unsafe_safe: "c \<in> set (collapse_unsafe s) \<Longrightarrow> safe_char c"
  by (induction s rule: collapse_unsafe.induct)
     (auto simp: safe_char_def split: if_splits)

lemma set_trim_underscores: "set (trim_underscores s) \<subseteq> set s"
  unfolding trim_underscores_def
  by (auto dest!: set_dropWhileD)

lemma safeFilename_safe: "c \<in> set (safeFilename n) \<Longrightarrow> safe_char c"
  unfolding safeFilename_def
  using set_trim_underscores collapse_unsafe_safe
  by (meson in_set_takeD subsetD)

lemma safeFilename_length: "length (safeFilename n) \<le> 180"
  by (simp add: safeFilename_def)

lemma slash_unsafe: "\<not> safe_char (CHR ''/'')"
  by (simp add: char_class_defs)

lemma baseName_no_slash: "CHR ''/'' \<notin> set (baseName a)"
  unfolding baseName_def using safeFilename_safe slash_unsafe by blast

section \<open>The local path\<close>

lemma split_slash_no_slash: "CHR ''/'' \<notin> set s \<Longrightarrow> split_slash s = [s]"
  by (induction s) auto

lemma path_join_plain:
  assumes "CHR ''/'' \<notin> set n" "n \<noteq> []" "n \<noteq> ''.''" "n \<noteq> ''..''"
  shows "path_join d n = d @ [n]"
  using assms by (simp add: path_join_def split_slash_no_slash path_step_def)

lemma localPath_plain:
  assumes "CHR ''/'' \<notin> set (messageId a)"
  shows "localPath D a = D @ [localName a]"
proof -
  have s: "CHR ''/'' \<notin> set (localName a)"
    using assms baseName_no_slash by (simp add: localName_def)
  have d: "CHR ''-'' \<in> set (localName a)" by (simp add: localName_def)
  have "localName a \<noteq> []" "localName a \<noteq> ''.''" "localName a \<noteq> ''..''"
    using d by auto
  then show ?thesis unfolding localPath_def using s by (simp add: path_join_plain)
qed

section \<open>The mirror\<close>

text \<open>
  A call that returns gives the local reference, leaves the file in place, and either found
  the file and changed nothing or fetched once and wrote the file.
\<close>

lemma mirror_returns:
  assumes "mirrorToLocal D a w = (Inr r, w')"
  shows "r = ''/downloads/'' @ localName a"
    and "existsSync w' (localPath D a)"
    and "(w' = w \<and> existsSync w (localPath D a)) \<or>
         (\<not> existsSync w (localPath D a) \<and> butlast (localPath D a) \<in> dirs w \<and>
          (\<exists>b. w' = w\<lparr>fetched := fetched w @ [url a], files := (files w)(localPath D a \<mapsto> b)\<rparr>))"
  using assms
  by (auto simp: mirrorToLocal_def fetch_def writeFileSync_def existsSync_def
           split: if_splits fetch_result.splits sum.splits prod.splits)

text \<open>
  C1. Two successive calls of the mirror with the same arguments: when the first call
  returns a local reference, the second call, run in the world the first one left, returns
  the same reference and leaves that world as it is; in particular it fetches nothing, since
  the log of fetched URLs is part of the world. The first call itself fetched at most once.
\<close>

theorem mirror_idempotent:
  assumes "mirrorToLocal D a w = (Inr r, w')"
  shows "mirrorToLocal D a w' = (Inr r, w') \<and>
         existsSync w' (localPath D a) \<and>
         (fetched w' = fetched w \<or> fetched w' = fetched w @ [url a])"
proof -
  have "mirrorToLocal D a w' = (Inr r, w')"
    using mirror_returns(1,2) [OF assms] by (simp add: mirrorToLocal_def)
  moreover have "fetched w' = fetched w \<or> fetched w' = fetched w @ [url a]"
    using mirror_returns(3) [OF assms] by auto
  ultimately show ?thesis using mirror_returns(2) [OF assms] by simp
qed

theorem mirror_idempotent_witness:
  "fst (mirrorToLocal ex_dir ex_args ex_world) = Inr ''/downloads/42-my_cat.gif'' \<and>
   mirrorToLocal ex_dir ex_args (snd (mirrorToLocal ex_dir ex_args ex_world))
     = (Inr ''/downloads/42-my_cat.gif'', snd (mirrorToLocal ex_dir ex_args ex_world)) \<and>
   fetched (snd (mirrorToLocal ex_dir ex_args ex_world)) = [''https://cdn.example/1/cat.gif'']"
proof -
  have f: "fst (mirrorToLocal ex_dir ex_args ex_world) = Inr ''/downloads/42-my_cat.gif''"
    by (simp add: ex_defs mirror_eval)
  have l: "fetched (snd (mirrorToLocal ex_dir ex_args ex_world)) = [''https://cdn.example/1/cat.gif'']"
    by (simp add: ex_defs mirror_eval)
  have h: "mirrorToLocal ex_dir ex_args ex_world
             = (Inr ''/downloads/42-my_cat.gif'', snd (mirrorToLocal ex_dir ex_args ex_world))"
    using f by (simp add: prod_eq_iff)
  show ?thesis using mirror_idempotent [OF h] f l by simp
qed

text \<open>
  C10. When the message id has no slash, every reference the mirror returns, after the
  short-circuit as after a fresh write, is \<^verbatim>\<open>/downloads/\<close>, the message id, a dash and a
  sanitized name of at most 180 characters, all of them in \<^verbatim>\<open>[A-Za-z0-9._-]\<close>; nothing after
  \<^verbatim>\<open>/downloads/\<close> is a slash; the local path is the mirror directory with that one name
  appended; and the call either found a file there and changed nothing, or wrote the file
  at exactly that path.
\<close>

theorem mirror_reference_shape:
  assumes "CHR ''/'' \<notin> set (messageId a)" and "mirrorToLocal D a w = (Inr r, w')"
  shows "r = ''/downloads/'' @ messageId a @ ''-'' @ baseName a \<and>
         (\<forall>c \<in> set (baseName a). safe_char c) \<and>
         length (baseName a) \<le> 180 \<and>
         CHR ''/'' \<notin> set (messageId a @ ''-'' @ baseName a) \<and>
         localPath D a = D @ [messageId a @ ''-'' @ baseName a] \<and>
         ((w' = w \<and> existsSync w (D @ [messageId a @ ''-'' @ baseName a])) \<or>
          (\<exists>b. files w' = (files w)(D @ [messageId a @ ''-'' @ baseName a] \<mapsto> b)))"
proof -
  have p: "localPath D a = D @ [messageId a @ ''-'' @ baseName a]"
    using localPath_plain [OF assms(1)] by (simp add: localName_def)
  have r: "r = ''/downloads/'' @ messageId a @ ''-'' @ baseName a"
    using mirror_returns(1) [OF assms(2)] by (simp add: localName_def)
  have s: "\<forall>c \<in> set (baseName a). safe_char c"
    unfolding baseName_def using safeFilename_safe by blast
  have l: "length (baseName a) \<le> 180"
    unfolding baseName_def by (rule safeFilename_length)
  have n: "CHR ''/'' \<notin> set (messageId a @ ''-'' @ baseName a)"
    using assms(1) baseName_no_slash by simp
  have f: "(w' = w \<and> existsSync w (D @ [messageId a @ ''-'' @ baseName a])) \<or>
          (\<exists>b. files w' = (files w)(D @ [messageId a @ ''-'' @ baseName a] \<mapsto> b))"
    using mirror_returns(3) [OF assms(2)] unfolding p by auto
  show ?thesis using p r s l n f by blast
qed

theorem mirror_reference_shape_witness:
  "CHR ''/'' \<notin> set (messageId ex_args) \<and>
   fst (mirrorToLocal ex_dir ex_args ex_world) = Inr ''/downloads/42-my_cat.gif'' \<and>
   baseName ex_args = ''my_cat.gif'' \<and>
   localPath ex_dir ex_args = [''srv'', ''downloads'', ''42-my_cat.gif''] \<and>
   files (snd (mirrorToLocal ex_dir ex_args ex_world)) [''srv'', ''downloads'', ''42-my_cat.gif'']
     = Some ''GIF89a''"
proof -
  have m: "CHR ''/'' \<notin> set (messageId ex_args)" by (simp add: ex_args_def)
  have f: "fst (mirrorToLocal ex_dir ex_args ex_world) = Inr ''/downloads/42-my_cat.gif''"
    by (simp add: ex_defs mirror_eval)
  have h: "mirrorToLocal ex_dir ex_args ex_world
             = (Inr ''/downloads/42-my_cat.gif'', snd (mirrorToLocal ex_dir ex_args ex_world))"
    using f by (simp add: prod_eq_iff)
  have b: "baseName ex_args = ''my_cat.gif''"
    by (simp add: ex_args_def baseName_def or_else_def safeFilename_eval)
  have w: "files (snd (mirrorToLocal ex_dir ex_args ex_world)) [''srv'', ''downloads'', ''42-my_cat.gif'']
             = Some ''GIF89a''"
    by (simp add: ex_defs mirror_eval)
  have p: "localPath ex_dir ex_args = [''srv'', ''downloads'', ''42-my_cat.gif'']"
    using mirror_reference_shape [OF m h] b by (simp add: ex_dir_def ex_args_def)
  show ?thesis using m f b p w by simp
qed

section \<open>Local names across messages\<close>

lemma dash_split:
  assumes "CHR ''-'' \<notin> set x" "CHR ''-'' \<notin> set y" "x @ CHR ''-'' # p = y @ CHR ''-'' # q"
  shows "x = y"
proof -
  have "takeWhile (\<lambda>c. c \<noteq> CHR ''-'') (x @ CHR ''-'' # p) = x"
    using assms(1) by (auto simp: takeWhile_tail)
  moreover have "takeWhile (\<lambda>c. c \<noteq> CHR ''-'') (y @ CHR ''-'' # q) = y"
    using assms(2) by (auto simp: takeWhile_tail)
  ultimately show ?thesis using assms(3) by simp
qed

text \<open>
  C8, as stated, fails: the message id \<^verbatim>\<open>1\<close> with the file name \<^verbatim>\<open>2-a.png\<close> and the message
  id \<^verbatim>\<open>1-2\<close> with the file name \<^verbatim>\<open>a.png\<close> have the same local name \<^verbatim>\<open>1-2-a.png\<close>.
\<close>

theorem localName_collision:
  "messageId \<lparr>url = ''https://cdn.example/a.png'', messageId = ''1'', filename = Some ''2-a.png''\<rparr>
     \<noteq> messageId \<lparr>url = ''https://cdn.example/a.png'', messageId = ''1-2'', filename = Some ''a.png''\<rparr> \<and>
   localName \<lparr>url = ''https://cdn.example/a.png'', messageId = ''1'', filename = Some ''2-a.png''\<rparr>
     = localName \<lparr>url = ''https://cdn.example/a.png'', messageId = ''1-2'', filename = Some ''a.png''\<rparr>"
  by (simp add: localName_def baseName_def or_else_def safeFilename_eval)

text \<open>
  C8, amended. Two attachments of distinct message ids have distinct local names when
  neither message id contains a dash (the ids of the upstream platform are decimal
  numerals), and also when their sanitized file names are the same.
\<close>

theorem localName_distinct:
  assumes "messageId a \<noteq> messageId b"
    and "(CHR ''-'' \<notin> set (messageId a) \<and> CHR ''-'' \<notin> set (messageId b)) \<or> baseName a = baseName b"
  shows "localName a \<noteq> localName b"
proof
  assume e: "localName a = localName b"
  from assms(2) show False
  proof
    assume "CHR ''-'' \<notin> set (messageId a) \<and> CHR ''-'' \<notin> set (messageId b)"
    then have "messageId a = messageId b"
      using e dash_split [of "messageId a" "messageId b" "baseName a" "baseName b"]
      by (simp add: localName_def)
    then show False using assms(1) by simp
  next
    assume "baseName a = baseName b"
    then have "messageId a = messageId b" using e by (simp add: localName_def)
    then show False using assms(1) by simp
  qed
qed

theorem localName_distinct_witness:
  "messageId (ex_args\<lparr>messageId := ''43''\<rparr>) \<noteq> messageId ex_args \<and>
   CHR ''-'' \<notin> set (messageId (ex_args\<lparr>messageId := ''43''\<rparr>)) \<and>
   CHR ''-'' \<notin> set (messageId ex_args) \<and>
   baseName (ex_args\<lparr>messageId := ''43''\<rparr>) = baseName ex_args \<and>
   localName (ex_args\<lparr>messageId := ''43''\<rparr>) \<noteq> localName ex_args"
proof -
  have d: "messageId (ex_args\<lparr>messageId := ''43''\<rparr>) \<noteq> messageId ex_args"
    by (simp add: ex_args_def)
  have n: "CHR ''-'' \<notin> set (messageId (ex_args\<lparr>messageId := ''43''\<rparr>)) \<and>
           CHR ''-'' \<notin> set (messageId ex_args)"
    by (simp add: ex_args_def)
  have b: "baseName (ex_args\<lparr>messageId := ''43''\<rparr>) = baseName ex_args"
    by (simp add: baseName_def)
  show ?thesis using localName_distinct [OF d disjI1 [OF n]] d n b by simp
qed

section \<open>Classification of attachments\<close>

lemma ci_match_self: "ci_match e (e @ r)"
  by (simp add: ci_match_def)

lemma ext_test_suffix:
  assumes "e \<in> set exts" "query_or_end r"
  shows "ext_test exts (p @ ''.'' @ e @ r)"
proof (induction p)
  case Nil
  have "list_ex (\<lambda>x. ci_match x (e @ r) \<and> query_or_end (drop (length x) (e @ r))) exts"
    unfolding list_ex_iff using assms ci_match_self by (intro bexI [of _ e]) auto
  then show ?case by simp
next
  case (Cons c p)
  then show ?case by simp
qed

lemma gif_url_tests:
  assumes "u = p @ ''.gif'' \<or> u = p @ ''.gif?'' @ q"
  shows "ext_test image_exts u" "ext_test [''gif''] u"
proof -
  obtain r where r: "u = p @ ''.'' @ ''gif'' @ r" "query_or_end r"
    using assms by (auto simp: query_or_end_def)
  show "ext_test image_exts u"
    unfolding r(1) by (rule ext_test_suffix) (simp_all add: image_exts_def r(2))
  show "ext_test [''gif''] u"
    unfolding r(1) by (rule ext_test_suffix) (simp_all add: r(2))
qed

lemma out_add:
  "out (add u t n c acc) =
     (if u = [] \<or> u \<in> seen acc then out acc
      else out acc @ [\<lparr>item_url = u, item_type = t, item_name = n, item_contentType = c\<rparr>])"
  by (simp add: add_def)

text \<open>
  C6. An attachment whose original URL ends in \<^verbatim>\<open>.gif\<close>, or in \<^verbatim>\<open>.gif\<close> followed by a query
  string, is handed to \<^verbatim>\<open>add\<close> with the type \<^verbatim>\<open>gif\<close>, whatever its content type is (absent and
  \<^verbatim>\<open>image/gif\<close> included): the round of the loop leaves the list of media as it was, or
  appends one item of type \<^verbatim>\<open>gif\<close>, never one of type \<^verbatim>\<open>image\<close>.
\<close>

theorem gif_attachment_is_gif:
  assumes "att_url a = p @ ''.gif'' \<or> att_url a = p @ ''.gif?'' @ q"
  shows "\<exists>u. fst (attachment_step D mid a (acc, w)) = add u Gif None None acc \<and>
             (out (add u Gif None None acc) = out acc \<or>
              out (add u Gif None None acc)
                = out acc @ [\<lparr>item_url = u, item_type = Gif, item_name = None, item_contentType = None\<rparr>])"
proof -
  note t = gif_url_tests [OF assms]
  obtain r w' where m: "mirrorToLocal D \<lparr>url = att_url a, messageId = mid,
      filename = Some (or_else (att_filename a) ''download'')\<rparr> w = (r, w')"
    by (cases "mirrorToLocal D \<lparr>url = att_url a, messageId = mid,
      filename = Some (or_else (att_filename a) ''download'')\<rparr> w") auto
  let ?u = "case r of Inl e \<Rightarrow> att_url a | Inr l \<Rightarrow> l"
  have "fst (attachment_step D mid a (acc, w)) = add ?u Gif None None acc"
    using t m by (simp add: attachment_step_def Let_def)
  moreover have "out (add ?u Gif None None acc) = out acc \<or>
              out (add ?u Gif None None acc)
                = out acc @ [\<lparr>item_url = ?u, item_type = Gif, item_name = None, item_contentType = None\<rparr>]"
    by (simp add: out_add)
  ultimately show ?thesis by blast
qed

theorem gif_attachment_is_gif_witness:
  "att_url ex_gif = ''https://cdn.example/1/cat'' @ ''.gif'' \<and>
   content_type ex_gif = None \<and>
   out (fst (attachment_step ex_dir ''42'' ex_gif (\<lparr>out = [], seen = {}\<rparr>, ex_world)))
     = [\<lparr>item_url = ''/downloads/42-cat.gif'', item_type = Gif, item_name = None, item_contentType = None\<rparr>] \<and>
   out (fst (attachment_step ex_dir ''42'' (ex_gif\<lparr>content_type := Some ''image/gif''\<rparr>)
              (\<lparr>out = [], seen = {}\<rparr>, ex_world)))
     = [\<lparr>item_url = ''/downloads/42-cat.gif'', item_type = Gif, item_name = None, item_contentType = None\<rparr>]"
proof -
  have h: "att_url ex_gif = ''https://cdn.example/1/cat'' @ ''.gif''"
    by (simp add: ex_gif_def)
  have c: "content_type ex_gif = None"
    by (simp add: ex_gif_def)
  have e1: "out (fst (attachment_step ex_dir ''42'' ex_gif (\<lparr>out = [], seen = {}\<rparr>, ex_world)))
     = [\<lparr>item_url = ''/downloads/42-cat.gif'', item_type = Gif, item_name = None, item_contentType = None\<rparr>]"
    by code_simp
  have e2: "out (fst (attachment_step ex_dir ''42'' (ex_gif\<lparr>content_type := Some ''image/gif''\<rparr>)
              (\<lparr>out = [], seen = {}\<rparr>, ex_world)))
     = [\<lparr>item_url = ''/downloads/42-cat.gif'', item_type = Gif, item_name = None, item_contentType = None\<rparr>]"
    by code_simp
  show ?thesis
    using gif_attachment_is_gif [OF disjI1 [OF h], of ex_dir "''42''" "\<lparr>out = [], seen = {}\<rparr>" ex_world]
      h c e1 e2 by simp
qed

section \<open>Embeds with a video\<close>

lemma embed_step_video:
  assumes "truthy (video_url e)"
  shows "embed_step e acc = add (or_else (video_url e) []) Video None None acc"
  using assms by (simp add: embed_step_def)

text \<open>
  C7, as stated, fails: of two embeds with the same video URL (each with an image too) the
  second adds no item at all, since \<^verbatim>\<open>add\<close> drops a URL it has seen; the message has one
  media item, not one for each embed.
\<close>

theorem embed_video_repeated:
  "truthy (video_url ex_embed) \<and> truthy (image_url ex_embed) \<and>
   out (embed_step ex_embed \<lparr>out = [], seen = {}\<rparr>)
     = [\<lparr>item_url = ''https://v.example/clip.mp4'', item_type = Video, item_name = None, item_contentType = None\<rparr>] \<and>
   out (embed_step ex_embed (embed_step ex_embed \<lparr>out = [], seen = {}\<rparr>))
     = out (embed_step ex_embed \<lparr>out = [], seen = {}\<rparr>) \<and>
   length (fst (getMediaFromMessage ex_dir (ex_msg\<lparr>attachments := [], embeds := [ex_embed, ex_embed]\<rparr>) ex_world)) = 1"
  by (simp add: ex_embed_def ex_msg_def embed_step_def truthy_def or_else_def add_def getMediaFromMessage_def)

text \<open>
  C7, amended. An embed with a video URL (with or without an image or thumbnail URL) adds
  the video URL with the type \<^verbatim>\<open>video\<close> when that URL has not been added before, and nothing
  when it has; its image and thumbnail URLs are not added. A message whose only media
  source is one such embed has exactly one media item, the video.
\<close>

theorem embed_video_only:
  assumes "truthy (video_url e)"
  shows "embed_step e acc = add (or_else (video_url e) []) Video None None acc \<and>
         out (embed_step e acc) =
           (if or_else (video_url e) [] \<in> seen acc then out acc
            else out acc @ [\<lparr>item_url = or_else (video_url e) [], item_type = Video,
                              item_name = None, item_contentType = None\<rparr>]) \<and>
         (attachments m = [] \<and> embeds m = [e] \<longrightarrow>
            fst (getMediaFromMessage D m w)
              = [\<lparr>item_url = or_else (video_url e) [], item_type = Video,
                   item_name = None, item_contentType = None\<rparr>])"
proof -
  have n: "or_else (video_url e) [] \<noteq> []"
    using assms by (auto simp: truthy_def or_else_def split: option.splits)
  have s: "embed_step e acc = add (or_else (video_url e) []) Video None None acc" for acc
    using assms by (rule embed_step_video)
  show ?thesis
    using n by (simp add: s out_add getMediaFromMessage_def)
qed

theorem embed_video_only_witness:
  "truthy (video_url ex_embed) \<and> truthy (image_url ex_embed) \<and>
   attachments (ex_msg\<lparr>attachments := [], embeds := [ex_embed]\<rparr>) = [] \<and>
   embeds (ex_msg\<lparr>attachments := [], embeds := [ex_embed]\<rparr>) = [ex_embed] \<and>
   fst (getMediaFromMessage ex_dir (ex_msg\<lparr>attachments := [], embeds := [ex_embed]\<rparr>) ex_world)
     = [\<lparr>item_url = ''https://v.example/clip.mp4'', item_type = Video,
          item_name = None, item_contentType = None\<rparr>]"
proof -
  have t: "truthy (video_url ex_embed)" by (simp add: ex_embed_def truthy_def)
  have i: "truthy (image_url ex_embed)" by (simp add: ex_embed_def truthy_def)
  have v: "or_else (video_url ex_embed) [] = ''https://v.example/clip.mp4''"
    by (simp add: ex_embed_def or_else_def)
  show ?thesis
    using embed_video_only [OF t, of "\<lparr>out = [], seen = {}\<rparr>"
        "ex_msg\<lparr>attachments := [], embeds := [ex_embed]\<rparr>" ex_dir ex_world] t i v
    by simp
qed

section \<open>The route\<close>

lemma discordFetchJson_response:
  assumes "remote w u = Response r"
  shows "discordFetchJson cfg u w =
           (Inr (if body r = [] then \<lparr>r_ok = ok r, r_status = status r, r_data = Data JNull\<rparr>
                 else (case JSON_parse cfg (body r) of
                         None \<Rightarrow> \<lparr>r_ok = False, r_status = 502, r_data = NonJSON (body r)\<rparr>
                       | Some j \<Rightarrow> \<lparr>r_ok = ok r, r_status = status r, r_data = Data j\<rparr>)),
            w\<lparr>fetched := fetched w @ [u]\<rparr>)"
  using assms by (simp add: discordFetchJson_def fetch_def split: option.splits)

lemma announcements_success:
  assumes "requireEnv cfg = None" "remote w (messages_url cfg) = Response r" "ok r"
    and "body r = [] \<and> j = JNull \<or> body r \<noteq> [] \<and> JSON_parse cfg (body r) = Some j"
  shows "announcements cfg w =
           (\<lparr>res_status = 200, cache_control = Some ''no-store'',
             res_json = AnnouncementsJson
               (cleaned (fst (map_messages (DOWNLOADS_DIR cfg) (filter qualifies (messages_of (Data j)))
                                (w\<lparr>fetched := fetched w @ [messages_url cfg]\<rparr>))))\<rparr>,
            snd (map_messages (DOWNLOADS_DIR cfg) (filter qualifies (messages_of (Data j)))
                   (w\<lparr>fetched := fetched w @ [messages_url cfg]\<rparr>)))"
  using assms
  by (auto simp: announcements_def discordFetchJson_response [OF assms(2)] split: prod.splits)

lemma to_announcement_id: "ann_id (fst (to_announcement D m w)) = msg_id m"
  by (simp add: to_announcement_def split: prod.splits)

lemma map_messages_ids: "map ann_id (fst (map_messages D ms w)) = map msg_id ms"
proof (induction ms arbitrary: w)
  case Nil
  show ?case by simp
next
  case (Cons m ms)
  obtain a w1 where a: "to_announcement D m w = (a, w1)"
    by (cases "to_announcement D m w") auto
  have "ann_id a = msg_id m"
    using to_announcement_id [of D m w] a by simp
  then show ?case
    using Cons.IH [of w1] a by (auto split: prod.splits)
qed

text \<open>
  C9. With both configuration values present, an upstream answer with a success status
  whose body is empty, or parses as JSON that is not an array (\<^verbatim>\<open>null\<close>, a number, a string,
  an object), makes the route respond 200 with the empty array of announcements.
\<close>

theorem non_array_gives_empty_feed:
  assumes "requireEnv cfg = None" and "remote w (messages_url cfg) = Response r" and "ok r"
    and "body r = [] \<or> (\<exists>j. JSON_parse cfg (body r) = Some j \<and> (\<forall>ms. j \<noteq> JArray ms))"
  shows "fst (announcements cfg w)
           = \<lparr>res_status = 200, cache_control = Some ''no-store'', res_json = AnnouncementsJson []\<rparr>"
proof -
  obtain j where j: "body r = [] \<and> j = JNull \<or> body r \<noteq> [] \<and> JSON_parse cfg (body r) = Some j"
    and n: "\<forall>ms. j \<noteq> JArray ms"
    using assms(4) by (cases "body r = []") auto
  have "messages_of (Data j) = []"
    using n by (cases j) (simp_all add: messages_of_def)
  then show ?thesis
    using announcements_success [OF assms(1-3) j] by (simp add: cleaned_def)
qed

lemma ex_env: "requireEnv ex_cfg = None"
  by code_simp

lemma ex_url: "messages_url ex_cfg = ''https://discord.com/api/v10/channels/123/messages?limit=20''"
  by code_simp

theorem non_array_gives_empty_feed_witness:
  "requireEnv ex_cfg = None \<and>
   remote (ex_world_with ''null'') (messages_url ex_cfg) = Response \<lparr>status = 200, body = ''null''\<rparr> \<and>
   ok \<lparr>status = 200, body = ''null''\<rparr> \<and>
   JSON_parse ex_cfg ''null'' = Some JNull \<and>
   fst (announcements ex_cfg (ex_world_with ''null''))
     = \<lparr>res_status = 200, cache_control = Some ''no-store'', res_json = AnnouncementsJson []\<rparr>"
proof -
  have r: "remote (ex_world_with ''null'') (messages_url ex_cfg) = Response \<lparr>status = 200, body = ''null''\<rparr>"
    by (simp add: ex_url ex_world_with_def ex_remote_def)
  have k: "ok \<lparr>status = 200, body = ''null''\<rparr>" by (simp add: ok_def)
  have p: "JSON_parse ex_cfg ''null'' = Some JNull" by (simp add: ex_cfg_def ex_parse_def)
  have b: "body \<lparr>status = 200, body = ''null''\<rparr> = [] \<or>
           (\<exists>j. JSON_parse ex_cfg (body \<lparr>status = 200, body = ''null''\<rparr>) = Some j \<and> (\<forall>ms. j \<noteq> JArray ms))"
    using p by simp
  show ?thesis
    using non_array_gives_empty_feed [OF ex_env r k b] ex_env r k p by simp
qed

text \<open>
  C3. When the bot credential or the channel identifier is absent from the environment, the
  route responds 500 with an error field that names a missing item: the credential when it
  is absent (or blank), otherwise the channel identifier. The world is returned as it was:
  no URL has been fetched.
\<close>

theorem missing_configuration:
  assumes "env_token cfg = None \<or> env_channel cfg = None"
  shows "announcements cfg w
           = (\<lparr>res_status = 500, cache_control = None,
               res_json = ErrorJson (if env_token cfg = None \<or> \<not> truthy (DISCORD_BOT_TOKEN cfg)
                                     then ''Missing DISCORD_BOT_TOKEN''
                                     else ''Missing DISCORD_CHANNEL_ID'')\<rparr>, w) \<and>
         fetched (snd (announcements cfg w)) = fetched w"
  using assms
  by (auto simp: announcements_def requireEnv_def DISCORD_BOT_TOKEN_def DISCORD_CHANNEL_ID_def truthy_def
           split: option.splits)

theorem missing_configuration_witness:
  "env_channel (ex_cfg\<lparr>env_channel := None\<rparr>) = None \<and>
   announcements (ex_cfg\<lparr>env_channel := None\<rparr>) ex_world
     = (\<lparr>res_status = 500, cache_control = None, res_json = ErrorJson ''Missing DISCORD_CHANNEL_ID''\<rparr>, ex_world) \<and>
   env_token (ex_cfg\<lparr>env_token := None\<rparr>) = None \<and>
   announcements (ex_cfg\<lparr>env_token := None\<rparr>) ex_world
     = (\<lparr>res_status = 500, cache_control = None, res_json = ErrorJson ''Missing DISCORD_BOT_TOKEN''\<rparr>, ex_world) \<and>
   fetched ex_world = []"
proof -
  have c: "env_channel (ex_cfg\<lparr>env_channel := None\<rparr>) = None" by simp
  have t: "env_token (ex_cfg\<lparr>env_token := None\<rparr>) = None" by simp
  have k: "env_token (ex_cfg\<lparr>env_channel := None\<rparr>) \<noteq> None \<and> truthy (DISCORD_BOT_TOKEN (ex_cfg\<lparr>env_channel := None\<rparr>))"
    by (simp add: ex_cfg_def DISCORD_BOT_TOKEN_def truthy_def trim_def is_space_def)
  have f: "fetched ex_world = []" by (simp add: ex_world_def ex_world_with_def)
  show ?thesis
    using missing_configuration [OF disjI2 [OF c], of ex_world]
      missing_configuration [OF disjI1 [OF t], of ex_world] k f
    by simp
qed

text \<open>
  C4. On a successful upstream answer that is an array, the candidates are the announcements
  of the qualifying messages, one for each and in upstream order; the route answers with
  the first 8 of the candidates that are left when those with empty content and empty
  media are dropped. With 20 qualifying messages whose announcements are all non-empty it
  answers with exactly the first 8 candidates.
\<close>

theorem feed_filter_and_truncate:
  assumes "requireEnv cfg = None" and "remote w (messages_url cfg) = Response r" and "ok r"
    and "body r \<noteq> []" and "JSON_parse cfg (body r) = Some (JArray ms)"
    and "mapped = fst (map_messages (DOWNLOADS_DIR cfg) (filter qualifies ms)
                         (w\<lparr>fetched := fetched w @ [messages_url cfg]\<rparr>))"
  shows "fst (announcements cfg w)
           = \<lparr>res_status = 200, cache_control = Some ''no-store'',
              res_json = AnnouncementsJson
                (take 8 (filter (\<lambda>a. \<not> (ann_content a = [] \<and> media a = [])) mapped))\<rparr> \<and>
         map ann_id mapped = map msg_id (filter qualifies ms) \<and>
         (length (filter qualifies ms) = 20 \<and> (\<forall>a \<in> set mapped. \<not> (ann_content a = [] \<and> media a = []))
            \<longrightarrow> fst (announcements cfg w)
                  = \<lparr>res_status = 200, cache_control = Some ''no-store'',
                     res_json = AnnouncementsJson (take 8 mapped)\<rparr> \<and>
                length (take 8 mapped) = 8)"
proof -
  have n: "nonempty = (\<lambda>a. \<not> (ann_content a = [] \<and> media a = []))"
    by (auto simp: nonempty_def fun_eq_iff)
  have a: "fst (announcements cfg w)
           = \<lparr>res_status = 200, cache_control = Some ''no-store'',
              res_json = AnnouncementsJson
                (take 8 (filter (\<lambda>a. \<not> (ann_content a = [] \<and> media a = [])) mapped))\<rparr>"
    using announcements_success [OF assms(1-3), of "JArray ms"] assms(4,5)
    by (simp add: cleaned_def n assms(6) messages_of_def)
  have i: "map ann_id mapped = map msg_id (filter qualifies ms)"
    unfolding assms(6) by (rule map_messages_ids)
  have l: "length mapped = length (filter qualifies ms)"
    using i by (metis length_map)
  show ?thesis
    using a i l by auto
qed

lemma ex_plain_announcement: "to_announcement D (ex_plain i) w = (ex_news i, w)"
proof -
  have "trim (sanitizeContent (contentRaw (ex_plain i))) = ''news''"
    by code_simp
  then show ?thesis
    by (simp add: to_announcement_def getMediaFromMessage_def ex_plain_def ex_news_def)
qed


lemma map_messages_plain: "map_messages D (map ex_plain is) w = (map ex_news is, w)"
  by (induction "is") (simp_all add: ex_plain_announcement)

lemma ex_twenty_qualify: "filter qualifies ex_twenty = ex_twenty"
  by (simp add: ex_twenty_def qualifies_def ex_plain_def)

theorem feed_filter_and_truncate_witness:
  "requireEnv ex_cfg = None \<and>
   remote (ex_world_with ''[twenty]'') (messages_url ex_cfg) = Response \<lparr>status = 200, body = ''[twenty]''\<rparr> \<and>
   JSON_parse ex_cfg ''[twenty]'' = Some (JArray ex_twenty) \<and>
   length (filter qualifies ex_twenty) = 20 \<and>
   fst (announcements ex_cfg (ex_world_with ''[twenty]''))
     = \<lparr>res_status = 200, cache_control = Some ''no-store'',
        res_json = AnnouncementsJson
          (map ex_news [''01'', ''02'', ''03'', ''04'', ''05'', ''06'', ''07'', ''08''])\<rparr>"
proof -
  let ?w = "ex_world_with ''[twenty]''"
  let ?r = "\<lparr>status = 200, body = ''[twenty]''\<rparr>"
  let ?mapped = "map ex_news
     [''01'', ''02'', ''03'', ''04'', ''05'', ''06'', ''07'', ''08'', ''09'', ''10'',
      ''11'', ''12'', ''13'', ''14'', ''15'', ''16'', ''17'', ''18'', ''19'', ''20'']"
  have r: "remote ?w (messages_url ex_cfg) = Response ?r"
    by (simp add: ex_url ex_world_with_def ex_remote_def)
  have k: "ok ?r" by (simp add: ok_def)
  have b: "body ?r \<noteq> []" by simp
  have p: "JSON_parse ex_cfg (body ?r) = Some (JArray ex_twenty)"
    by (simp add: ex_cfg_def ex_parse_def)
  have m: "?mapped = fst (map_messages (DOWNLOADS_DIR ex_cfg) (filter qualifies ex_twenty)
                            (?w\<lparr>fetched := fetched ?w @ [messages_url ex_cfg]\<rparr>))"
    unfolding ex_twenty_qualify by (simp only: ex_twenty_def map_messages_plain fst_conv)
  have l: "length (filter qualifies ex_twenty) = 20"
    unfolding ex_twenty_qualify by (simp add: ex_twenty_def)
  have n: "\<forall>a \<in> set ?mapped. \<not> (ann_content a = [] \<and> media a = [])"
    by (simp add: ex_news_def)
  show ?thesis
    using feed_filter_and_truncate [OF ex_env r k b p m] l n ex_env r p by simp
qed

text \<open>
  C2. The mirror throws when the file is not on disk and the fetch fails or answers with a
  status that is not a success; whatever it returns is the local reference, never the
  remote URL put in its place. In the loop over the attachments a mirror that throws makes
  the original URL of the attachment the URL handed to \<^verbatim>\<open>add\<close>. And a route whose upstream
  call succeeded with an array answers 200 with announcements, whatever the remote side
  does with the attachments.
\<close>

theorem mirror_failure_falls_back:
  "(\<not> existsSync w (localPath D a) \<and>
      (remote w (url a) = NetworkError \<or> (\<exists>r. remote w (url a) = Response r \<and> \<not> ok r))
      \<longrightarrow> (\<exists>e. fst (mirrorToLocal D a w) = Inl e)) \<and>
   (\<forall>l. fst (mirrorToLocal D a w) = Inr l \<longrightarrow> l = ''/downloads/'' @ localName a) \<and>
   (fst (mirrorToLocal D \<lparr>url = att_url t, messageId = mid,
                           filename = Some (or_else (att_filename t) ''download'')\<rparr> w) = Inl e
      \<longrightarrow> (\<exists>ty nm ct. fst (attachment_step D mid t (acc, w)) = add (att_url t) ty nm ct acc)) \<and>
   (requireEnv cfg = None \<and> remote w (messages_url cfg) = Response r \<and> ok r \<and> body r \<noteq> [] \<and>
      JSON_parse cfg (body r) = Some (JArray ms)
      \<longrightarrow> (\<exists>anns. fst (announcements cfg w)
                     = \<lparr>res_status = 200, cache_control = Some ''no-store'',
                        res_json = AnnouncementsJson anns\<rparr>))"
proof (intro conjI impI allI)
  assume "\<not> existsSync w (localPath D a) \<and>
      (remote w (url a) = NetworkError \<or> (\<exists>r. remote w (url a) = Response r \<and> \<not> ok r))"
  then show "\<exists>e. fst (mirrorToLocal D a w) = Inl e"
    by (auto simp: mirrorToLocal_def fetch_def)
next
  fix l assume "fst (mirrorToLocal D a w) = Inr l"
  then have "mirrorToLocal D a w = (Inr l, snd (mirrorToLocal D a w))"
    by (simp add: prod_eq_iff)
  then show "l = ''/downloads/'' @ localName a" by (rule mirror_returns)
next
  assume "fst (mirrorToLocal D \<lparr>url = att_url t, messageId = mid,
                           filename = Some (or_else (att_filename t) ''download'')\<rparr> w) = Inl e"
  then obtain w' where m: "mirrorToLocal D \<lparr>url = att_url t, messageId = mid,
                    filename = Some (or_else (att_filename t) ''download'')\<rparr> w = (Inl e, w')"
    by (cases "mirrorToLocal D \<lparr>url = att_url t, messageId = mid,
                    filename = Some (or_else (att_filename t) ''download'')\<rparr> w") auto
  let ?ct = "toLowerCase (or_else (content_type t) [])"
  consider (image) "startsWith ?ct ''image/'' \<or> ext_test image_exts (att_url t)"
    | (video) "\<not> (startsWith ?ct ''image/'' \<or> ext_test image_exts (att_url t))"
        "startsWith ?ct ''video/'' \<or> ext_test video_exts (att_url t)"
    | (other) "\<not> (startsWith ?ct ''image/'' \<or> ext_test image_exts (att_url t))"
        "\<not> (startsWith ?ct ''video/'' \<or> ext_test video_exts (att_url t))"
    by blast
  then show "\<exists>ty nm ct. fst (attachment_step D mid t (acc, w)) = add (att_url t) ty nm ct acc"
  proof cases
    case image
    have "fst (attachment_step D mid t (acc, w))
            = add (att_url t) (if ?ct = ''image/gif'' \<or> ext_test [''gif''] (att_url t) then Gif else Image)
                None None acc"
      using image by (simp add: attachment_step_def Let_def m)
    then show ?thesis by blast
  next
    case video
    have "fst (attachment_step D mid t (acc, w)) = add (att_url t) Video None None acc"
      using video by (simp add: attachment_step_def Let_def m)
    then show ?thesis by blast
  next
    case other
    have "fst (attachment_step D mid t (acc, w))
            = add (att_url t) File (Some (or_else (att_filename t) ''download'')) (Some ?ct) acc"
      using other by (simp add: attachment_step_def Let_def m)
    then show ?thesis by blast
  qed
next
  assume h: "requireEnv cfg = None \<and> remote w (messages_url cfg) = Response r \<and> ok r \<and> body r \<noteq> [] \<and>
      JSON_parse cfg (body r) = Some (JArray ms)"
  then have "body r = [] \<and> JArray ms = JNull \<or> body r \<noteq> [] \<and> JSON_parse cfg (body r) = Some (JArray ms)"
    by simp
  from announcements_success [OF _ _ _ this] h
  show "\<exists>anns. fst (announcements cfg w)
                     = \<lparr>res_status = 200, cache_control = Some ''no-store'',
                        res_json = AnnouncementsJson anns\<rparr>"
    by simp
qed

theorem mirror_failure_falls_back_witness:
  "\<not> existsSync ex_world (localPath ex_dir \<lparr>url = att_url ex_gone, messageId = ''42'', filename = Some ''gone.png''\<rparr>) \<and>
   remote ex_world (att_url ex_gone) = Response \<lparr>status = 404, body = []\<rparr> \<and>
   \<not> ok \<lparr>status = 404, body = []\<rparr> \<and>
   fst (mirrorToLocal ex_dir \<lparr>url = att_url ex_gone, messageId = ''42'', filename = Some ''gone.png''\<rparr> ex_world)
     = Inl (MirrorFetchFailed 404) \<and>
   (\<exists>ty nm ct. fst (attachment_step ex_dir ''42'' ex_gone (\<lparr>out = [], seen = {}\<rparr>, ex_world))
       = add ''https://cdn.example/1/gone.png'' ty nm ct \<lparr>out = [], seen = {}\<rparr>) \<and>
   out (fst (attachment_step ex_dir ''42'' ex_gone (\<lparr>out = [], seen = {}\<rparr>, ex_world)))
     = [\<lparr>item_url = ''https://cdn.example/1/gone.png'', item_type = Image, item_name = None, item_contentType = None\<rparr>] \<and>
   requireEnv ex_cfg = None \<and>
   fst (announcements ex_cfg ex_world)
     = \<lparr>res_status = 200, cache_control = Some ''no-store'',
        res_json = AnnouncementsJson
          [\<lparr>ann_id = ''42'', ann_content = ''hi'', ann_timestamp = ''2025-01-01T00:00:00Z'',
            media = [\<lparr>item_url = ''https://cdn.example/1/gone.png'', item_type = Image,
                      item_name = None, item_contentType = None\<rparr>]\<rparr>]\<rparr>"
proof -
  let ?a = "\<lparr>url = att_url ex_gone, messageId = ''42'', filename = Some ''gone.png''\<rparr>"
  have x: "\<not> existsSync ex_world (localPath ex_dir ?a)" by code_simp
  have r: "remote ex_world (att_url ex_gone) = Response \<lparr>status = 404, body = []\<rparr>"
    by (simp add: ex_defs ex_gone_def)
  have k: "\<not> ok \<lparr>status = 404, body = []\<rparr>" by (simp add: ok_def)
  have m: "fst (mirrorToLocal ex_dir ?a ex_world) = Inl (MirrorFetchFailed 404)" by code_simp
  have n: "or_else (att_filename ex_gone) ''download'' = ''gone.png''"
    by (simp add: ex_gone_def or_else_def)
  have u: "att_url ex_gone = ''https://cdn.example/1/gone.png''" by (simp add: ex_gone_def)
  have s: "out (fst (attachment_step ex_dir ''42'' ex_gone (\<lparr>out = [], seen = {}\<rparr>, ex_world)))
     = [\<lparr>item_url = ''https://cdn.example/1/gone.png'', item_type = Image, item_name = None, item_contentType = None\<rparr>]"
    by code_simp
  have f: "fst (announcements ex_cfg ex_world)
     = \<lparr>res_status = 200, cache_control = Some ''no-store'',
        res_json = AnnouncementsJson
          [\<lparr>ann_id = ''42'', ann_content = ''hi'', ann_timestamp = ''2025-01-01T00:00:00Z'',
            media = [\<lparr>item_url = ''https://cdn.example/1/gone.png'', item_type = Image,
                      item_name = None, item_contentType = None\<rparr>]\<rparr>]\<rparr>"
    by code_simp
  note t = mirror_failure_falls_back [where w = ex_world and D = ex_dir and a = ?a and t = ex_gone
      and mid = "''42''" and e = "MirrorFetchFailed 404" and acc = "\<lparr>out = [], seen = {}\<rparr>"
      and cfg = ex_cfg and r = "\<lparr>status = 200, body = ''[one]''\<rparr>" and ms = "[ex_msg]"]
  have b: "\<exists>ty nm ct. fst (attachment_step ex_dir ''42'' ex_gone (\<lparr>out = [], seen = {}\<rparr>, ex_world))
       = add ''https://cdn.example/1/gone.png'' ty nm ct \<lparr>out = [], seen = {}\<rparr>"
    using t m unfolding n u by blast
  show ?thesis
    using x r k m b s ex_env f by blast
qed

section \<open>Matches and their surroundings\<close>

lemma startsWith_length: "startsWith s pat \<Longrightarrow> length pat \<le> length s"
  unfolding startsWith_def by (metis length_take min.cobounded1)

lemma startsWith_barrier:
  assumes "s \<noteq> []" "c \<notin> set (tl pat)"
  shows "startsWith (s @ c # t) pat = startsWith s pat"
proof (cases "length pat \<le> length s")
  case True
  then show ?thesis by (simp add: startsWith_def)
next
  case False
  then have l: "length s < length pat" by simp
  have "take (length pat) s \<noteq> pat"
  proof
    assume "take (length pat) s = pat"
    then have "length (take (length pat) s) = length pat" by simp
    then show False using l by simp
  qed
  moreover have "take (length pat) (s @ c # t) \<noteq> pat"
  proof
    assume e: "take (length pat) (s @ c # t) = pat"
    obtain k where k: "length pat - length s = Suc k"
      using l by (metis Suc_diff_Suc)
    have "pat = s @ c # take k t"
      using e l k by simp
    then have "tl pat = tl s @ c # take k t" using assms(1) by simp
    then show False using assms(2) by simp
  qed
  ultimately show ?thesis by (simp add: startsWith_def)
qed

lemma startsWith_snoc:
  assumes "pat \<noteq> []" "c \<noteq> last pat"
  shows "startsWith (s @ [c]) pat = startsWith s pat"
proof (cases "length pat \<le> length s")
  case True
  then show ?thesis by (simp add: startsWith_def)
next
  case False
  then have l: "length s < length pat" by simp
  have "take (length pat) s \<noteq> pat"
  proof
    assume "take (length pat) s = pat"
    then have "length (take (length pat) s) = length pat" by simp
    then show False using l by simp
  qed
  moreover have "take (length pat) (s @ [c]) \<noteq> pat"
  proof
    assume e: "take (length pat) (s @ [c]) = pat"
    have "pat = s @ [c]" using e l by simp
    then show False using assms(2) by simp
  qed
  ultimately show ?thesis by (simp add: startsWith_def)
qed

lemma drop_after_prefix:
  assumes "startsWith s pat" "length pat = k"
  shows "drop k (s @ u) = drop k s @ u"
  using startsWith_length [OF assms(1)] assms(2) by simp

lemma digits_gt_barrier:
  assumes "\<not> is_digit c" "c \<noteq> CHR ''>''"
  shows "digits_gt (s @ c # t) = digits_gt s"
proof (cases "\<forall>x \<in> set s. is_digit x")
  case True
  have e: "dropWhile is_digit (s @ c # t) = c # t"
    using True assms(1) by (simp add: dropWhile_append3)
  have a: "digits_gt (s @ c # t) = None"
    using assms(2) by (simp add: digits_gt_def startsWith_def Let_def e)
  have f: "dropWhile is_digit s = []" using True by simp
  have "digits_gt s = None"
    by (simp add: digits_gt_def startsWith_def Let_def f)
  then show ?thesis using a by simp
next
  case False
  then obtain x where x: "x \<in> set s" "\<not> is_digit x" by blast
  have d: "dropWhile is_digit s \<noteq> []" using x by (metis dropWhile_eq_Nil_conv)
  have "takeWhile is_digit (s @ c # t) = takeWhile is_digit s"
    "dropWhile is_digit (s @ c # t) = dropWhile is_digit s @ c # t"
    using x by (simp_all add: takeWhile_append1 dropWhile_append1)
  moreover have "startsWith (dropWhile is_digit s @ c # t) ''>'' = startsWith (dropWhile is_digit s) ''>''"
    using d by (cases "dropWhile is_digit s") (simp_all add: startsWith_def)
  ultimately show ?thesis by (simp add: digits_gt_def)
qed

lemma digits_gt_bound: "digits_gt s = Some n \<Longrightarrow> n \<le> length s"
proof -
  assume a: "digits_gt s = Some n"
  then have n: "n = length (takeWhile is_digit s) + 1"
    and p: "startsWith (dropWhile is_digit s) ''>''"
    by (simp_all add: digits_gt_def Let_def split: if_splits)
  have "length s = length (takeWhile is_digit s) + length (dropWhile is_digit s)"
    by (metis length_append takeWhile_dropWhile_id)
  moreover have "1 \<le> length (dropWhile is_digit s)"
    using startsWith_length [OF p] by simp
  ultimately show ?thesis using n by simp
qed

lemma lit_bound: "lit pat s = Some n \<Longrightarrow> n \<le> length s"
  by (auto simp: lit_def dest: startsWith_length split: if_splits)

lemma lit_barrier: "s \<noteq> [] \<Longrightarrow> c \<notin> set (tl pat) \<Longrightarrow> lit pat (s @ c # t) = lit pat s"
  by (simp add: lit_def startsWith_barrier)

lemma prefixed_bound:
  assumes "startsWith s pat" "length pat = k" "map_option (\<lambda>n. n + k) (digits_gt (drop k s)) = Some n"
  shows "n \<le> length s"
proof -
  obtain j where j: "digits_gt (drop k s) = Some j" "n = j + k" using assms(3) by auto
  have "j \<le> length s - k" using digits_gt_bound [OF j(1)] by simp
  moreover have "k \<le> length s" using startsWith_length [OF assms(1)] assms(2) by simp
  ultimately show ?thesis using j(2) by simp
qed

lemma user_mention_bound:
  assumes "user_mention s = Some n"
  shows "n \<le> length s"
proof (cases "startsWith s ''<@!''")
  case True
  then have "map_option (\<lambda>n. n + 3) (digits_gt (drop 3 s)) = Some n"
    using assms by (simp add: user_mention_def)
  then show ?thesis by (rule prefixed_bound [OF True, rotated]) simp
next
  case False
  then have t: "startsWith s ''<@''"
    using assms by (simp add: user_mention_def split: if_splits)
  then have "map_option (\<lambda>n. n + 2) (digits_gt (drop 2 s)) = Some n"
    using assms False by (simp add: user_mention_def)
  then show ?thesis by (rule prefixed_bound [OF t, rotated]) simp
qed

lemma role_mention_bound:
  assumes "role_mention s = Some n"
  shows "n \<le> length s"
proof -
  have t: "startsWith s ''<@&''"
    using assms by (simp add: role_mention_def split: if_splits)
  then have "map_option (\<lambda>n. n + 3) (digits_gt (drop 3 s)) = Some n"
    using assms by (simp add: role_mention_def)
  then show ?thesis by (rule prefixed_bound [OF t, rotated]) simp
qed

lemma channel_ref_bound:
  assumes "channel_ref s = Some n"
  shows "n \<le> length s"
proof -
  have t: "startsWith s ''<#''"
    using assms by (simp add: channel_ref_def split: if_splits)
  then have "map_option (\<lambda>n. n + 2) (digits_gt (drop 2 s)) = Some n"
    using assms by (simp add: channel_ref_def)
  then show ?thesis by (rule prefixed_bound [OF t, rotated]) simp
qed

lemma gsub_split:
  assumes loc: "\<And>s. s \<noteq> [] \<Longrightarrow> m (s @ t) = m s"
    and bound: "\<And>s n. m s = Some n \<Longrightarrow> n \<le> length s"
  shows "gsub m rep (p @ t) = gsub m rep p @ gsub m rep t"
proof (induction p rule: length_induct)
  case (1 p)
  show ?case
  proof (cases p)
    case Nil
    then show ?thesis by simp
  next
    case (Cons c cs)
    have e: "m (c # cs @ t) = m (c # cs)"
      using loc [of "c # cs"] by simp
    have tl: "gsub m rep (cs @ t) = gsub m rep cs @ gsub m rep t"
      using 1 Cons by simp
    show ?thesis
    proof (cases "m (c # cs)")
      case None
      then show ?thesis using Cons e tl by simp
    next
      case (Some n)
      show ?thesis
      proof (cases "n = 0")
        case True
        then show ?thesis using Cons e tl Some by simp
      next
        case False
        have n: "n \<le> length (c # cs)" using bound [OF Some] .
        then have d: "drop n (c # cs @ t) = drop n (c # cs) @ t"
          by (metis append_Cons drop_append diff_is_0_eq drop0)
        have "length (drop n (c # cs)) < length p"
          using False Cons by simp
        then have "gsub m rep (drop n (c # cs) @ t) = gsub m rep (drop n (c # cs)) @ gsub m rep t"
          using 1 by blast
        then show ?thesis using Cons e Some False d by simp
      qed
    qed
  qed
qed

text \<open>A stretch of text in which no match can start is copied.\<close>

lemma gsub_pass:
  assumes "\<And>c s. c \<in> set u \<Longrightarrow> m (c # s) = None"
  shows "gsub m rep (u @ v) = u @ gsub m rep v"
  using assms by (induction u) simp_all

lemma lit_start: "pat \<noteq> [] \<Longrightarrow> c \<noteq> hd pat \<Longrightarrow> lit pat (c # s) = None"
  by (cases pat) (simp_all add: lit_def startsWith_def)

lemma user_mention_start: "c \<noteq> CHR ''<'' \<Longrightarrow> user_mention (c # s) = None"
  by (simp add: user_mention_def startsWith_def)

lemma role_mention_start: "c \<noteq> CHR ''<'' \<Longrightarrow> role_mention (c # s) = None"
  by (simp add: role_mention_def startsWith_def)

lemma channel_ref_start: "c \<noteq> CHR ''<'' \<Longrightarrow> channel_ref (c # s) = None"
  by (simp add: channel_ref_def startsWith_def)


lemma prefixed_barrier:
  assumes "startsWith s pat" "length pat = k" "\<not> is_digit c" "c \<noteq> CHR ''>''"
  shows "digits_gt (drop k (s @ c # t)) = digits_gt (drop k s)"
  using drop_after_prefix [OF assms(1,2)] digits_gt_barrier [OF assms(3,4)] by simp

lemma user_mention_barrier:
  assumes "s \<noteq> []" "c \<notin> set ''@!>''" "\<not> is_digit c"
  shows "user_mention (s @ c # t) = user_mention s"
proof -
  have a: "startsWith (s @ c # t) ''<@!'' = startsWith s ''<@!''"
    using assms(1,2) by (intro startsWith_barrier) simp_all
  have b: "startsWith (s @ c # t) ''<@'' = startsWith s ''<@''"
    using assms(1,2) by (intro startsWith_barrier) simp_all
  have g: "c \<noteq> CHR ''>''" using assms(2) by simp
  have d3: "digits_gt (drop 3 (s @ c # t)) = digits_gt (drop 3 s)" if "startsWith s ''<@!''"
    using that by (rule prefixed_barrier) (simp_all add: assms(3) g)
  have d2: "digits_gt (drop 2 (s @ c # t)) = digits_gt (drop 2 s)" if "startsWith s ''<@''"
    using that by (rule prefixed_barrier) (simp_all add: assms(3) g)
  show ?thesis
    unfolding user_mention_def a b using d3 d2 by simp
qed

lemma role_mention_barrier:
  assumes "s \<noteq> []" "c \<notin> set ''@&>''" "\<not> is_digit c"
  shows "role_mention (s @ c # t) = role_mention s"
proof -
  have a: "startsWith (s @ c # t) ''<@&'' = startsWith s ''<@&''"
    using assms(1,2) by (intro startsWith_barrier) simp_all
  have g: "c \<noteq> CHR ''>''" using assms(2) by simp
  have d3: "digits_gt (drop 3 (s @ c # t)) = digits_gt (drop 3 s)" if "startsWith s ''<@&''"
    using that by (rule prefixed_barrier) (simp_all add: assms(3) g)
  show ?thesis
    unfolding role_mention_def a using d3 by simp
qed

lemma channel_ref_barrier:
  assumes "s \<noteq> []" "c \<notin> set ''#>''" "\<not> is_digit c"
  shows "channel_ref (s @ c # t) = channel_ref s"
proof -
  have a: "startsWith (s @ c # t) ''<#'' = startsWith s ''<#''"
    using assms(1,2) by (intro startsWith_barrier) simp_all
  have g: "c \<noteq> CHR ''>''" using assms(2) by simp
  have d2: "digits_gt (drop 2 (s @ c # t)) = digits_gt (drop 2 s)" if "startsWith s ''<#''"
    using that by (rule prefixed_barrier) (simp_all add: assms(3) g)
  show ?thesis
    unfolding channel_ref_def a using d2 by simp
qed

lemma role_mention_before_at: "role_mention (s @ ''@'') = role_mention s"
proof -
  have a: "startsWith (s @ ''@'') ''<@&'' = startsWith s ''<@&''"
    by (rule startsWith_snoc) simp_all
  have d3: "digits_gt (drop 3 (s @ ''@'')) = digits_gt (drop 3 s)" if "startsWith s ''<@&''"
    using that by (rule prefixed_barrier) (simp_all add: is_digit_def digit_chars_def)
  show ?thesis
    unfolding role_mention_def a using d3 by simp
qed

text \<open>A token that the expression does not match stays; one that it matches is replaced.\<close>

lemma gsub_keep_token:
  assumes barrier: "\<And>s t. s \<noteq> [] \<Longrightarrow> m (s @ c # t) = m s"
    and bound: "\<And>s n. m s = Some n \<Longrightarrow> n \<le> length s"
    and first: "m (c # r @ q) = None"
    and rest: "\<And>d s. d \<in> set r \<Longrightarrow> m (d # s) = None"
  shows "gsub m rep (p @ c # r @ q) = gsub m rep p @ c # r @ gsub m rep q"
proof -
  have "gsub m rep (p @ c # r @ q) = gsub m rep p @ gsub m rep (c # r @ q)"
    by (rule gsub_split) (simp_all add: barrier bound)
  moreover have "gsub m rep (c # r @ q) = c # gsub m rep (r @ q)"
    using first by simp
  moreover have "gsub m rep (r @ q) = r @ gsub m rep q"
    by (rule gsub_pass) (rule rest)
  ultimately show ?thesis by simp
qed

lemma gsub_replace_token:
  assumes barrier: "\<And>s t. s \<noteq> [] \<Longrightarrow> m (s @ c # t) = m s"
    and bound: "\<And>s n. m s = Some n \<Longrightarrow> n \<le> length s"
    and first: "m (c # r @ q) = Some (Suc (length r))"
  shows "gsub m rep (p @ c # r @ q) = gsub m rep p @ rep @ gsub m rep q"
proof -
  have "gsub m rep (p @ c # r @ q) = gsub m rep p @ gsub m rep (c # r @ q)"
    by (rule gsub_split) (simp_all add: barrier bound)
  moreover have "gsub m rep (c # r @ q) = rep @ gsub m rep q"
    using first by simp
  ultimately show ?thesis by simp
qed

lemma digits_gt_run:
  assumes "ds \<noteq> []" "\<forall>c \<in> set ds. is_digit c"
  shows "digits_gt (ds @ CHR ''>'' # q) = Some (length ds + 1)"
proof -
  have n: "\<not> is_digit (CHR ''>'')" by (simp add: is_digit_def digit_chars_def)
  have "takeWhile is_digit (ds @ CHR ''>'' # q) = ds"
    using assms(2) n by (simp add: takeWhile_tail)
  moreover have "dropWhile is_digit (ds @ CHR ''>'' # q) = CHR ''>'' # q"
    using assms(2) n by (simp add: dropWhile_append3)
  ultimately show ?thesis using assms(1) by (simp add: digits_gt_def startsWith_def)
qed


section \<open>The passes of the sanitizer on a token\<close>

lemma backslash_not_in_esc: "CHR 0x5C \<notin> set (tl esc_lt)" "CHR 0x5C \<notin> set (tl esc_gt)"
  "CHR ''<'' \<notin> set (tl esc_lt)" "CHR ''<'' \<notin> set (tl esc_gt)"
  "esc_lt \<noteq> []" "esc_gt \<noteq> []" "hd esc_lt = CHR 0x5C" "hd esc_gt = CHR 0x5C"
  by (simp_all add: esc_lt_def esc_gt_def)

text \<open>Text that starts with \<^verbatim>\<open><\<close> and has no backslash goes through both unescaping passes.\<close>

lemma unescape_keeps:
  assumes "pat = esc_lt \<or> pat = esc_gt" "CHR 0x5C \<notin> set r"
  shows "gsub (lit pat) rep (p @ CHR ''<'' # r @ q)
           = gsub (lit pat) rep p @ CHR ''<'' # r @ gsub (lit pat) rep q"
proof (rule gsub_keep_token)
  show "lit pat (s @ CHR ''<'' # t) = lit pat s" if "s \<noteq> []" for s t
    using that assms(1) backslash_not_in_esc by (intro lit_barrier) auto
  show "n \<le> length s" if "lit pat s = Some n" for s n
    using that by (rule lit_bound)
  show "lit pat (CHR ''<'' # r @ q) = None"
    using assms(1) backslash_not_in_esc by (intro lit_start) auto
  show "lit pat (d # s) = None" if "d \<in> set r" for d s
    using that assms backslash_not_in_esc by (intro lit_start) auto
qed

text \<open>An escaped pair of brackets around text without a backslash is unescaped.\<close>

lemma unescape_lt:
  assumes "CHR 0x5C \<notin> set x"
  shows "gsub (lit esc_lt) ''<'' (p @ esc_lt @ x @ esc_gt @ q)
           = gsub (lit esc_lt) ''<'' p @ CHR ''<'' # x @ esc_gt @ gsub (lit esc_lt) ''<'' q"
proof -
  let ?g = "gsub (lit esc_lt) ''<''"
  have 1: "?g (p @ esc_lt @ x @ esc_gt @ q) = ?g p @ ?g (esc_lt @ x @ esc_gt @ q)"
  proof (rule gsub_split)
    show "lit esc_lt (s @ esc_lt @ x @ esc_gt @ q) = lit esc_lt s" if "s \<noteq> []" for s
      using lit_barrier [OF that, of "CHR 0x5C" esc_lt "''u003c'' @ x @ esc_gt @ q"]
      by (simp add: esc_lt_def)
    show "n \<le> length s" if "lit esc_lt s = Some n" for s n
      using that by (rule lit_bound)
  qed
  have 2: "?g (esc_lt @ x @ esc_gt @ q) = CHR ''<'' # ?g (x @ esc_gt @ q)"
    by (simp add: esc_lt_def lit_def startsWith_def)
  have 3: "?g (x @ esc_gt @ q) = x @ ?g (esc_gt @ q)"
  proof (rule gsub_pass)
    show "lit esc_lt (c # s) = None" if "c \<in> set x" for c s
      using that assms by (intro lit_start) (auto simp: esc_lt_def)
  qed
  have 4: "?g (esc_gt @ q) = esc_gt @ ?g q"
    by (simp add: esc_lt_def esc_gt_def lit_def startsWith_def)
  show ?thesis using 1 2 3 4 by simp
qed

lemma unescape_gt:
  assumes "CHR 0x5C \<notin> set x"
  shows "gsub (lit esc_gt) ''>'' (p @ CHR ''<'' # x @ esc_gt @ q)
           = gsub (lit esc_gt) ''>'' p @ CHR ''<'' # x @ CHR ''>'' # gsub (lit esc_gt) ''>'' q"
proof -
  let ?g = "gsub (lit esc_gt) ''>''"
  have 1: "?g (p @ CHR ''<'' # x @ esc_gt @ q) = ?g p @ ?g (CHR ''<'' # x @ esc_gt @ q)"
  proof (rule gsub_split)
    show "lit esc_gt (s @ CHR ''<'' # x @ esc_gt @ q) = lit esc_gt s" if "s \<noteq> []" for s
      using that backslash_not_in_esc by (intro lit_barrier) auto
    show "n \<le> length s" if "lit esc_gt s = Some n" for s n
      using that by (rule lit_bound)
  qed
  have 2: "?g ((CHR ''<'' # x) @ esc_gt @ q) = (CHR ''<'' # x) @ ?g (esc_gt @ q)"
  proof (rule gsub_pass)
    show "lit esc_gt (c # s) = None" if "c \<in> set (CHR ''<'' # x)" for c s
      using that assms by (intro lit_start) (auto simp: esc_gt_def)
  qed
  have 3: "?g (esc_gt @ q) = CHR ''>'' # ?g q"
    by (simp add: esc_gt_def lit_def startsWith_def)
  show ?thesis using 1 2 3 by simp
qed

lemma digit_not:
  assumes "is_digit c"
  shows "c \<noteq> CHR ''<''" "c \<noteq> CHR 0x5C" "c \<noteq> CHR ''!''"
  using assms unfolding is_digit_def digit_chars_def by auto

lemma digits_plain:
  assumes "\<forall>c \<in> set ds. is_digit c"
  shows "CHR ''<'' \<notin> set ds" "CHR 0x5C \<notin> set ds" "CHR ''!'' \<notin> set ds"
proof -
  show "CHR ''<'' \<notin> set ds" using assms digit_not(1) by blast
  show "CHR 0x5C \<notin> set ds" using assms digit_not(2) by blast
  show "CHR ''!'' \<notin> set ds" using assms digit_not(3) by blast
qed

text \<open>What each expression finds at a token.\<close>

lemma user_mention_token:
  assumes "ds \<noteq> []" "\<forall>c \<in> set ds. is_digit c"
  shows "user_mention (''<@'' @ ds @ ''>'' @ q) = Some (length ds + 3)"
    and "user_mention (''<@!'' @ ds @ ''>'' @ q) = Some (length ds + 4)"
    and "user_mention (''<@&'' @ ds @ ''>'' @ q) = None"
    and "user_mention (''<#'' @ ds @ ''>'' @ q) = None"
proof -
  obtain d ds' where d: "ds = d # ds'" using assms(1) by (cases ds) auto
  have n: "d \<noteq> CHR ''!''" using digits_plain(3) [OF assms(2)] d by auto
  have r: "digits_gt (ds @ CHR ''>'' # q) = Some (length ds + 1)"
    using assms by (rule digits_gt_run)
  have a: "\<not> startsWith (''<@'' @ ds @ ''>'' @ q) ''<@!''"
    using n by (simp add: startsWith_def d)
  have b: "startsWith (''<@'' @ ds @ ''>'' @ q) ''<@''"
    by (simp add: startsWith_def)
  show "user_mention (''<@'' @ ds @ ''>'' @ q) = Some (length ds + 3)"
    unfolding user_mention_def using a b r by simp
  have c: "startsWith (''<@!'' @ ds @ ''>'' @ q) ''<@!''"
    by (simp add: startsWith_def)
  show "user_mention (''<@!'' @ ds @ ''>'' @ q) = Some (length ds + 4)"
    unfolding user_mention_def using c r by simp
  show "user_mention (''<@&'' @ ds @ ''>'' @ q) = None"
    by (simp add: user_mention_def startsWith_def digits_gt_def is_digit_def digit_chars_def)
  show "user_mention (''<#'' @ ds @ ''>'' @ q) = None"
    by (simp add: user_mention_def startsWith_def)
qed

lemma role_mention_token:
  assumes "ds \<noteq> []" "\<forall>c \<in> set ds. is_digit c"
  shows "role_mention (''<@&'' @ ds @ ''>'' @ q) = Some (length ds + 4)"
    and "role_mention (''<#'' @ ds @ ''>'' @ q) = None"
proof -
  have r: "digits_gt (ds @ CHR ''>'' # q) = Some (length ds + 1)"
    using assms by (rule digits_gt_run)
  have c: "startsWith (''<@&'' @ ds @ ''>'' @ q) ''<@&''"
    by (simp add: startsWith_def)
  show "role_mention (''<@&'' @ ds @ ''>'' @ q) = Some (length ds + 4)"
    unfolding role_mention_def using c r by simp
  show "role_mention (''<#'' @ ds @ ''>'' @ q) = None"
    by (simp add: role_mention_def startsWith_def)
qed

lemma channel_ref_token:
  assumes "ds \<noteq> []" "\<forall>c \<in> set ds. is_digit c"
  shows "channel_ref (''<#'' @ ds @ ''>'' @ q) = Some (length ds + 3)"
proof -
  have r: "digits_gt (ds @ CHR ''>'' # q) = Some (length ds + 1)"
    using assms by (rule digits_gt_run)
  have c: "startsWith (''<#'' @ ds @ ''>'' @ q) ''<#''"
    by (simp add: startsWith_def)
  show ?thesis
    unfolding channel_ref_def using c r by simp
qed

lemma not_digit_lt: "\<not> is_digit (CHR ''<'')" "\<not> is_digit (CHR ''@'')" "\<not> is_digit (CHR ''u'')"
  by (simp_all add: is_digit_def digit_chars_def)

text \<open>The pass for user mentions.\<close>

lemma user_pass_replaces:
  assumes "ds \<noteq> []" "\<forall>c \<in> set ds. is_digit c" "pre = ''@'' \<or> pre = ''@!''"
  shows "gsub user_mention ''@user'' (p @ CHR ''<'' # pre @ ds @ ''>'' @ q)
           = gsub user_mention ''@user'' p @ ''@user'' @ gsub user_mention ''@user'' q"
proof -
  have "gsub user_mention ''@user'' (p @ CHR ''<'' # (pre @ ds @ ''>'') @ q)
           = gsub user_mention ''@user'' p @ ''@user'' @ gsub user_mention ''@user'' q"
  proof (rule gsub_replace_token)
    show "user_mention (s @ CHR ''<'' # t) = user_mention s" if "s \<noteq> []" for s t
      using that by (rule user_mention_barrier) (simp_all add: not_digit_lt)
    show "n \<le> length s" if "user_mention s = Some n" for s n
      using that by (rule user_mention_bound)
    show "user_mention (CHR ''<'' # (pre @ ds @ ''>'') @ q) = Some (Suc (length (pre @ ds @ ''>'')))"
      using assms(3) user_mention_token(1,2) [OF assms(1,2), of q] by auto
  qed
  then show ?thesis by simp
qed

lemma user_pass_keeps:
  assumes "ds \<noteq> []" "\<forall>c \<in> set ds. is_digit c" "pre = ''@&'' \<or> pre = ''#''"
  shows "gsub user_mention ''@user'' (p @ CHR ''<'' # pre @ ds @ ''>'' @ q)
           = gsub user_mention ''@user'' p @ CHR ''<'' # pre @ ds @ ''>'' @ gsub user_mention ''@user'' q"
proof -
  have "gsub user_mention ''@user'' (p @ CHR ''<'' # (pre @ ds @ ''>'') @ q)
           = gsub user_mention ''@user'' p @ CHR ''<'' # (pre @ ds @ ''>'') @ gsub user_mention ''@user'' q"
  proof (rule gsub_keep_token)
    show "user_mention (s @ CHR ''<'' # t) = user_mention s" if "s \<noteq> []" for s t
      using that by (rule user_mention_barrier) (simp_all add: not_digit_lt)
    show "n \<le> length s" if "user_mention s = Some n" for s n
      using that by (rule user_mention_bound)
    show "user_mention (CHR ''<'' # (pre @ ds @ ''>'') @ q) = None"
      using assms(3) user_mention_token(3,4) [OF assms(1,2), of q] by auto
    show "user_mention (d # s) = None" if "d \<in> set (pre @ ds @ ''>'')" for d s
      using that assms(3) digits_plain(1) [OF assms(2)] by (intro user_mention_start) auto
  qed
  then show ?thesis by simp
qed

text \<open>The pass for role mentions.\<close>

lemma role_pass_replaces:
  assumes "ds \<noteq> []" "\<forall>c \<in> set ds. is_digit c"
  shows "gsub role_mention ''@role'' (p @ ''<@&'' @ ds @ ''>'' @ q)
           = gsub role_mention ''@role'' p @ ''@role'' @ gsub role_mention ''@role'' q"
proof -
  have "gsub role_mention ''@role'' (p @ CHR ''<'' # (''@&'' @ ds @ ''>'') @ q)
           = gsub role_mention ''@role'' p @ ''@role'' @ gsub role_mention ''@role'' q"
  proof (rule gsub_replace_token)
    show "role_mention (s @ CHR ''<'' # t) = role_mention s" if "s \<noteq> []" for s t
      using that by (rule role_mention_barrier) (simp_all add: not_digit_lt)
    show "n \<le> length s" if "role_mention s = Some n" for s n
      using that by (rule role_mention_bound)
    show "role_mention (CHR ''<'' # (''@&'' @ ds @ ''>'') @ q) = Some (Suc (length (''@&'' @ ds @ ''>'')))"
      using role_mention_token(1) [OF assms, of q] by simp
  qed
  then show ?thesis by simp
qed

lemma role_pass_keeps_channel:
  assumes "ds \<noteq> []" "\<forall>c \<in> set ds. is_digit c"
  shows "gsub role_mention ''@role'' (p @ ''<#'' @ ds @ ''>'' @ q)
           = gsub role_mention ''@role'' p @ ''<#'' @ ds @ ''>'' @ gsub role_mention ''@role'' q"
proof -
  have "gsub role_mention ''@role'' (p @ CHR ''<'' # (''#'' @ ds @ ''>'') @ q)
           = gsub role_mention ''@role'' p @ CHR ''<'' # (''#'' @ ds @ ''>'') @ gsub role_mention ''@role'' q"
  proof (rule gsub_keep_token)
    show "role_mention (s @ CHR ''<'' # t) = role_mention s" if "s \<noteq> []" for s t
      using that by (rule role_mention_barrier) (simp_all add: not_digit_lt)
    show "n \<le> length s" if "role_mention s = Some n" for s n
      using that by (rule role_mention_bound)
    show "role_mention (CHR ''<'' # (''#'' @ ds @ ''>'') @ q) = None"
      using role_mention_token(2) [OF assms, of q] by simp
    show "role_mention (d # s) = None" if "d \<in> set (''#'' @ ds @ ''>'')" for d s
      using that digits_plain(1) [OF assms(2)] by (intro role_mention_start) auto
  qed
  then show ?thesis by simp
qed

lemma role_pass_keeps_user:
  "gsub role_mention ''@role'' (p @ ''@user'' @ q)
     = gsub role_mention ''@role'' p @ ''@user'' @ gsub role_mention ''@role'' q"
proof -
  let ?g = "gsub role_mention ''@role''"
  have "?g ((p @ ''@'') @ CHR ''u'' # ''ser'' @ q) = ?g (p @ ''@'') @ CHR ''u'' # ''ser'' @ ?g q"
  proof (rule gsub_keep_token)
    show "role_mention (s @ CHR ''u'' # t) = role_mention s" if "s \<noteq> []" for s t
      using that by (rule role_mention_barrier) (simp_all add: not_digit_lt)
    show "n \<le> length s" if "role_mention s = Some n" for s n
      using that by (rule role_mention_bound)
    show "role_mention (CHR ''u'' # ''ser'' @ q) = None"
      by (rule role_mention_start) simp
    show "role_mention (d # s) = None" if "d \<in> set ''ser''" for d s
      using that by (intro role_mention_start) auto
  qed
  moreover have "?g (p @ ''@'') = ?g p @ ?g ''@''"
  proof (rule gsub_split)
    show "role_mention (s @ ''@'') = role_mention s" for s
      by (rule role_mention_before_at)
    show "n \<le> length s" if "role_mention s = Some n" for s n
      using that by (rule role_mention_bound)
  qed
  moreover have "?g ''@'' = ''@''"
    by (simp add: role_mention_start)
  ultimately show ?thesis by simp
qed

text \<open>The pass for channel references.\<close>

lemma channel_pass_replaces:
  assumes "ds \<noteq> []" "\<forall>c \<in> set ds. is_digit c"
  shows "gsub channel_ref ''#channel'' (p @ ''<#'' @ ds @ ''>'' @ q)
           = gsub channel_ref ''#channel'' p @ ''#channel'' @ gsub channel_ref ''#channel'' q"
proof -
  have "gsub channel_ref ''#channel'' (p @ CHR ''<'' # (''#'' @ ds @ ''>'') @ q)
           = gsub channel_ref ''#channel'' p @ ''#channel'' @ gsub channel_ref ''#channel'' q"
  proof (rule gsub_replace_token)
    show "channel_ref (s @ CHR ''<'' # t) = channel_ref s" if "s \<noteq> []" for s t
      using that by (rule channel_ref_barrier) (simp_all add: not_digit_lt)
    show "n \<le> length s" if "channel_ref s = Some n" for s n
      using that by (rule channel_ref_bound)
    show "channel_ref (CHR ''<'' # (''#'' @ ds @ ''>'') @ q) = Some (Suc (length (''#'' @ ds @ ''>'')))"
      using channel_ref_token [OF assms, of q] by simp
  qed
  then show ?thesis by simp
qed

lemma channel_pass_keeps:
  assumes "CHR ''<'' \<notin> set r"
  shows "gsub channel_ref ''#channel'' (p @ CHR ''@'' # r @ q)
           = gsub channel_ref ''#channel'' p @ CHR ''@'' # r @ gsub channel_ref ''#channel'' q"
proof (rule gsub_keep_token)
  show "channel_ref (s @ CHR ''@'' # t) = channel_ref s" if "s \<noteq> []" for s t
    using that by (rule channel_ref_barrier) (simp_all add: not_digit_lt)
  show "n \<le> length s" if "channel_ref s = Some n" for s n
    using that by (rule channel_ref_bound)
  show "channel_ref (CHR ''@'' # r @ q) = None"
    by (rule channel_ref_start) simp
  show "channel_ref (d # s) = None" if "d \<in> set r" for d s
    using that assms by (intro channel_ref_start) auto
qed


section \<open>The sanitizer on tokens\<close>

lemma sanitize_escaped_user:
  assumes "ds \<noteq> []" "\<forall>c \<in> set ds. is_digit c"
  shows "sanitizeContent (p @ esc_lt @ ''@'' @ ds @ esc_gt @ q)
           = sanitizeContent p @ ''@user'' @ sanitizeContent q"
proof -
  have b: "CHR 0x5C \<notin> set (''@'' @ ds)"
    using digits_plain(2) [OF assms(2)] by simp
  have 1: "gsub (lit esc_lt) ''<'' (p @ esc_lt @ (''@'' @ ds) @ esc_gt @ q)
             = gsub (lit esc_lt) ''<'' p @ CHR ''<'' # (''@'' @ ds) @ esc_gt @ gsub (lit esc_lt) ''<'' q"
    using b by (rule unescape_lt)
  have 2: "gsub (lit esc_gt) ''>'' (P @ CHR ''<'' # (''@'' @ ds) @ esc_gt @ Q)
             = gsub (lit esc_gt) ''>'' P @ CHR ''<'' # (''@'' @ ds) @ CHR ''>'' # gsub (lit esc_gt) ''>'' Q"
    for P Q using b by (rule unescape_gt)
  have 3: "gsub user_mention ''@user'' (P @ CHR ''<'' # ''@'' @ ds @ ''>'' @ Q)
             = gsub user_mention ''@user'' P @ ''@user'' @ gsub user_mention ''@user'' Q"
    for P Q using assms by (rule user_pass_replaces) simp
  have 4: "gsub role_mention ''@role'' (P @ ''@user'' @ Q)
             = gsub role_mention ''@role'' P @ ''@user'' @ gsub role_mention ''@role'' Q"
    for P Q by (rule role_pass_keeps_user)
  have 5: "gsub channel_ref ''#channel'' (P @ CHR ''@'' # ''user'' @ Q)
             = gsub channel_ref ''#channel'' P @ CHR ''@'' # ''user'' @ gsub channel_ref ''#channel'' Q"
    for P Q by (rule channel_pass_keeps) simp
  have "gsub (lit esc_lt) ''<'' (p @ esc_lt @ ''@'' @ ds @ esc_gt @ q)
             = gsub (lit esc_lt) ''<'' p @ CHR ''<'' # (''@'' @ ds) @ esc_gt @ gsub (lit esc_lt) ''<'' q"
    using 1 by simp
  then show ?thesis
    unfolding sanitizeContent_def using 2 3 4 5 by simp
qed


lemma unescape_keeps_both:
  assumes "CHR 0x5C \<notin> set r"
  shows "gsub (lit esc_gt) ''>'' (gsub (lit esc_lt) ''<'' (p @ CHR ''<'' # r @ q))
           = gsub (lit esc_gt) ''>'' (gsub (lit esc_lt) ''<'' p) @ CHR ''<'' # r
               @ gsub (lit esc_gt) ''>'' (gsub (lit esc_lt) ''<'' q)"
  using unescape_keeps [of esc_lt r "''<''"] unescape_keeps [of esc_gt r "''>''"] assms by simp

lemma sanitize_user:
  assumes "ds \<noteq> []" "\<forall>c \<in> set ds. is_digit c" "pre = ''@'' \<or> pre = ''@!''"
  shows "sanitizeContent (p @ CHR ''<'' # pre @ ds @ ''>'' @ q)
           = sanitizeContent p @ ''@user'' @ sanitizeContent q"
proof -
  have b: "CHR 0x5C \<notin> set (pre @ ds @ ''>'')"
    using digits_plain(2) [OF assms(2)] assms(3) by auto
  have 3: "gsub user_mention ''@user'' (P @ CHR ''<'' # pre @ ds @ ''>'' @ Q)
             = gsub user_mention ''@user'' P @ ''@user'' @ gsub user_mention ''@user'' Q"
    for P Q using assms by (rule user_pass_replaces)
  have 4: "gsub role_mention ''@role'' (P @ ''@user'' @ Q)
             = gsub role_mention ''@role'' P @ ''@user'' @ gsub role_mention ''@role'' Q"
    for P Q by (rule role_pass_keeps_user)
  have 5: "gsub channel_ref ''#channel'' (P @ CHR ''@'' # ''user'' @ Q)
             = gsub channel_ref ''#channel'' P @ CHR ''@'' # ''user'' @ gsub channel_ref ''#channel'' Q"
    for P Q by (rule channel_pass_keeps) simp
  show ?thesis
    unfolding sanitizeContent_def using unescape_keeps_both [OF b, of p q] 3 4 5 by simp
qed

lemma sanitize_role:
  assumes "ds \<noteq> []" "\<forall>c \<in> set ds. is_digit c"
  shows "sanitizeContent (p @ ''<@&'' @ ds @ ''>'' @ q)
           = sanitizeContent p @ ''@role'' @ sanitizeContent q"
proof -
  have b: "CHR 0x5C \<notin> set (''@&'' @ ds @ ''>'')"
    using digits_plain(2) [OF assms(2)] by auto
  have 3: "gsub user_mention ''@user'' (P @ CHR ''<'' # ''@&'' @ ds @ ''>'' @ Q)
             = gsub user_mention ''@user'' P @ CHR ''<'' # ''@&'' @ ds @ ''>'' @ gsub user_mention ''@user'' Q"
    for P Q using assms by (rule user_pass_keeps) simp
  have 4: "gsub role_mention ''@role'' (P @ ''<@&'' @ ds @ ''>'' @ Q)
             = gsub role_mention ''@role'' P @ ''@role'' @ gsub role_mention ''@role'' Q"
    for P Q using assms by (rule role_pass_replaces)
  have 5: "gsub channel_ref ''#channel'' (P @ CHR ''@'' # ''role'' @ Q)
             = gsub channel_ref ''#channel'' P @ CHR ''@'' # ''role'' @ gsub channel_ref ''#channel'' Q"
    for P Q by (rule channel_pass_keeps) simp
  show ?thesis
    unfolding sanitizeContent_def using unescape_keeps_both [OF b, of p q] 3 4 5 by simp
qed

lemma sanitize_channel:
  assumes "ds \<noteq> []" "\<forall>c \<in> set ds. is_digit c"
  shows "sanitizeContent (p @ ''<#'' @ ds @ ''>'' @ q)
           = sanitizeContent p @ ''#channel'' @ sanitizeContent q"
proof -
  have b: "CHR 0x5C \<notin> set (''#'' @ ds @ ''>'')"
    using digits_plain(2) [OF assms(2)] by auto
  have 3: "gsub user_mention ''@user'' (P @ CHR ''<'' # ''#'' @ ds @ ''>'' @ Q)
             = gsub user_mention ''@user'' P @ CHR ''<'' # ''#'' @ ds @ ''>'' @ gsub user_mention ''@user'' Q"
    for P Q using assms by (rule user_pass_keeps) simp
  have 4: "gsub role_mention ''@role'' (P @ ''<#'' @ ds @ ''>'' @ Q)
             = gsub role_mention ''@role'' P @ ''<#'' @ ds @ ''>'' @ gsub role_mention ''@role'' Q"
    for P Q using assms by (rule role_pass_keeps_channel)
  have 5: "gsub channel_ref ''#channel'' (P @ ''<#'' @ ds @ ''>'' @ Q)
             = gsub channel_ref ''#channel'' P @ ''#channel'' @ gsub channel_ref ''#channel'' Q"
    for P Q using assms by (rule channel_pass_replaces)
  show ?thesis
    unfolding sanitizeContent_def using unescape_keeps_both [OF b, of p q] 3 4 5 by simp
qed

lemma sanitize_plain:
  assumes "\<forall>c \<in> set u. c \<noteq> CHR ''<'' \<and> c \<noteq> CHR 0x5C"
  shows "sanitizeContent (u @ v) = u @ sanitizeContent v"
proof -
  have 1: "gsub (lit esc_lt) rep (u @ w) = u @ gsub (lit esc_lt) rep w" for rep w
    using assms by (intro gsub_pass lit_start) (auto simp: esc_lt_def)
  have 2: "gsub (lit esc_gt) rep (u @ w) = u @ gsub (lit esc_gt) rep w" for rep w
    using assms by (intro gsub_pass lit_start) (auto simp: esc_gt_def)
  have 3: "gsub user_mention rep (u @ w) = u @ gsub user_mention rep w" for rep w
    using assms by (intro gsub_pass user_mention_start) auto
  have 4: "gsub role_mention rep (u @ w) = u @ gsub role_mention rep w" for rep w
    using assms by (intro gsub_pass role_mention_start) auto
  have 5: "gsub channel_ref rep (u @ w) = u @ gsub channel_ref rep w" for rep w
    using assms by (intro gsub_pass channel_ref_start) auto
  show ?thesis
    unfolding sanitizeContent_def by (simp only: 1 2 3 4 5)
qed

section \<open>Text without a match\<close>

lemma gsub_unchanged:
  assumes "\<forall>i<length s. m (drop i s) = None"
  shows "gsub m rep s = s"
  using assms
proof (induction s)
  case Nil
  show ?case by simp
next
  case (Cons c cs)
  have h: "m (c # cs) = None"
    using Cons.prems [rule_format, of 0] by simp
  have "\<forall>i<length cs. m (drop i cs) = None"
  proof (intro allI impI)
    fix i assume "i < length cs"
    then show "m (drop i cs) = None"
      using Cons.prems [rule_format, of "Suc i"] by simp
  qed
  then show ?case using Cons.IH h by simp
qed

lemma sanitize_unchanged:
  assumes "\<forall>i<length s. lit esc_lt (drop i s) = None \<and> lit esc_gt (drop i s) = None \<and>
             user_mention (drop i s) = None \<and> role_mention (drop i s) = None \<and>
             channel_ref (drop i s) = None"
  shows "sanitizeContent s = s"
proof -
  have "gsub (lit esc_lt) ''<'' s = s" "gsub (lit esc_gt) ''>'' s = s"
    "gsub user_mention ''@user'' s = s" "gsub role_mention ''@role'' s = s"
    "gsub channel_ref ''#channel'' s = s"
    using assms by (simp_all add: gsub_unchanged)
  then show ?thesis by (simp add: sanitizeContent_def)
qed

section \<open>The first and the last character of a replaced text\<close>

lemma startsWith_char: "startsWith s [c] = (s \<noteq> [] \<and> hd s = c)"
  by (cases s) (simp_all add: startsWith_def)

lemma gsub_first:
  assumes "rep \<noteq> []" "hd rep \<noteq> c" "\<not> startsWith s [c]"
  shows "\<not> startsWith (gsub m rep s) [c]"
proof (cases s)
  case Nil
  then show ?thesis by (simp add: startsWith_char)
next
  case (Cons x xs)
  then have x: "x \<noteq> c" using assms(3) by (simp add: startsWith_char)
  obtain r rs where r: "rep = r # rs" "r \<noteq> c"
    using assms(1,2) by (cases rep) auto
  show ?thesis
    using Cons x r by (cases "m (x # xs)") (simp_all add: startsWith_char)
qed

lemma gsub_last:
  assumes "rep \<noteq> []" "\<not> is_digit (last rep)"
  shows "p \<noteq> [] \<Longrightarrow> \<not> is_digit (last p) \<Longrightarrow>
         gsub m rep p \<noteq> [] \<and> \<not> is_digit (last (gsub m rep p))"
proof (induction p rule: length_induct)
  case (1 p)
  obtain c cs where p: "p = c # cs" using "1.prems"(1) by (cases p) auto
  have tl: "gsub m rep cs \<noteq> [] \<and> \<not> is_digit (last (gsub m rep cs))" if "cs \<noteq> []"
  proof -
    have "last cs = last p" using that p by simp
    then show ?thesis using "1.IH" "1.prems"(2) that p by simp
  qed
  have one: "\<not> is_digit c" if "cs = []"
    using that "1.prems"(2) p by simp
  show ?case
  proof (cases "m (c # cs)")
    case None
    then show ?thesis using p tl one by (cases "cs = []") simp_all
  next
    case (Some n)
    show ?thesis
    proof (cases "n = 0")
      case True
      then show ?thesis using p Some tl one by (cases "cs = []") simp_all
    next
      case False
      show ?thesis
      proof (cases "drop n (c # cs) = []")
        case True
        then show ?thesis using p Some False assms by simp
      next
        case d: False
        then have n: "n < length p" using p by simp
        have "last (drop n p) = last p" using n by (simp add: last_drop)
        moreover have "length (drop n p) < length p" using False n by simp
        ultimately have "gsub m rep (drop n p) \<noteq> [] \<and> \<not> is_digit (last (gsub m rep (drop n p)))"
          using "1.IH" "1.prems"(2) d p by simp
        then show ?thesis using p Some False by simp
      qed
    qed
  qed
qed

lemma gsub_closed:
  assumes "rep \<noteq> []" "\<not> is_digit (last rep)" "p = [] \<or> \<not> is_digit (last p)"
  shows "gsub m rep p = [] \<or> \<not> is_digit (last (gsub m rep p))"
  using gsub_last [OF assms(1,2), of p m] assms(3) by (cases "p = []") simp_all


section \<open>Splitting where no match of the text before goes on\<close>

lemma gsub_split_tails:
  assumes bound: "\<And>s n. m s = Some n \<Longrightarrow> n \<le> length s"
  shows "(\<And>u s. p = u @ s \<Longrightarrow> s \<noteq> [] \<Longrightarrow> m (s @ t) = m s) \<Longrightarrow>
         gsub m rep (p @ t) = gsub m rep p @ gsub m rep t"
proof (induction p rule: length_induct)
  case (1 p)
  show ?case
  proof (cases p)
    case Nil
    then show ?thesis by simp
  next
    case (Cons c cs)
    have e: "m (c # cs @ t) = m (c # cs)"
      using "1.prems" [of "[]" "c # cs"] Cons by simp
    have sub: "gsub m rep (drop k p @ t) = gsub m rep (drop k p) @ gsub m rep t" if "0 < k" for k
    proof -
      have l: "length (drop k p) < length p" using that Cons by simp
      have "m (s @ t) = m s" if "drop k p = u @ s" "s \<noteq> []" for u s
      proof -
        have "p = (take k p @ u) @ s" using that(1) by (metis append_assoc append_take_drop_id)
        then show ?thesis using "1.prems" that(2) by blast
      qed
      then show ?thesis using "1.IH" l by blast
    qed
    have tl: "gsub m rep (cs @ t) = gsub m rep cs @ gsub m rep t"
      using sub [of 1] Cons by simp
    show ?thesis
    proof (cases "m (c # cs)")
      case None
      then show ?thesis using Cons e tl by simp
    next
      case (Some n)
      show ?thesis
      proof (cases "n = 0")
        case True
        then show ?thesis using Cons e tl Some by simp
      next
        case False
        have n: "n \<le> length (c # cs)" using bound [OF Some] .
        then have d: "drop n (c # cs @ t) = drop n (c # cs) @ t"
          by (metis append_Cons drop_append diff_is_0_eq drop0)
        have "gsub m rep (drop n (c # cs) @ t) = gsub m rep (drop n (c # cs)) @ gsub m rep t"
          using sub [of n] False Cons by simp
        then show ?thesis using Cons e Some False d by simp
      qed
    qed
  qed
qed

lemma digits_gt_append:
  assumes "\<exists>y \<in> set x. \<not> is_digit y"
  shows "digits_gt (x @ t) = digits_gt x"
proof -
  obtain y where y: "y \<in> set x" "\<not> is_digit y" using assms by blast
  have d: "dropWhile is_digit x \<noteq> []" using y by (metis dropWhile_eq_Nil_conv)
  have "takeWhile is_digit (x @ t) = takeWhile is_digit x"
    "dropWhile is_digit (x @ t) = dropWhile is_digit x @ t"
    using y by (simp_all add: takeWhile_append1 dropWhile_append1)
  moreover have "startsWith (dropWhile is_digit x @ t) ''>'' = startsWith (dropWhile is_digit x) ''>''"
    using d by (cases "dropWhile is_digit x") (simp_all add: startsWith_def)
  ultimately show ?thesis by (simp add: digits_gt_def)
qed

lemma digits_gt_closed:
  assumes "x = [] \<or> \<not> is_digit (last x)"
  shows "digits_gt (x @ CHR ''>'' # t) = digits_gt x"
proof (cases "x = []")
  case True
  then show ?thesis
    by (simp add: digits_gt_def startsWith_def is_digit_def digit_chars_def)
next
  case False
  then have "\<exists>y \<in> set x. \<not> is_digit y" using assms last_in_set by blast
  then show ?thesis by (rule digits_gt_append)
qed

lemma prefixed_closed:
  assumes "s \<noteq> []" "\<not> is_digit (last s)" "startsWith s pat" "length pat = k"
  shows "digits_gt (drop k (s @ CHR ''>'' # t)) = digits_gt (drop k s)"
proof -
  have "drop k s = [] \<or> \<not> is_digit (last (drop k s))"
    using assms(2) by (cases "k < length s") (simp_all add: last_drop)
  then show ?thesis
    using drop_after_prefix [OF assms(3,4)] digits_gt_closed by simp
qed

lemma user_mention_closed:
  assumes "s \<noteq> []" "\<not> is_digit (last s)"
  shows "user_mention (s @ CHR ''>'' # t) = user_mention s"
proof -
  have a: "startsWith (s @ CHR ''>'' # t) ''<@!'' = startsWith s ''<@!''"
    using assms(1) by (intro startsWith_barrier) simp_all
  have b: "startsWith (s @ CHR ''>'' # t) ''<@'' = startsWith s ''<@''"
    using assms(1) by (intro startsWith_barrier) simp_all
  have d3: "digits_gt (drop 3 (s @ CHR ''>'' # t)) = digits_gt (drop 3 s)" if "startsWith s ''<@!''"
    using assms that by (rule prefixed_closed) simp
  have d2: "digits_gt (drop 2 (s @ CHR ''>'' # t)) = digits_gt (drop 2 s)" if "startsWith s ''<@''"
    using assms that by (rule prefixed_closed) simp
  show ?thesis
    unfolding user_mention_def a b using d3 d2 by simp
qed

lemma role_mention_closed:
  assumes "s \<noteq> []" "\<not> is_digit (last s)"
  shows "role_mention (s @ CHR ''>'' # t) = role_mention s"
proof -
  have a: "startsWith (s @ CHR ''>'' # t) ''<@&'' = startsWith s ''<@&''"
    using assms(1) by (intro startsWith_barrier) simp_all
  have d3: "digits_gt (drop 3 (s @ CHR ''>'' # t)) = digits_gt (drop 3 s)" if "startsWith s ''<@&''"
    using assms that by (rule prefixed_closed) simp
  show ?thesis
    unfolding role_mention_def a using d3 by simp
qed

lemma channel_ref_closed:
  assumes "s \<noteq> []" "\<not> is_digit (last s)"
  shows "channel_ref (s @ CHR ''>'' # t) = channel_ref s"
proof -
  have a: "startsWith (s @ CHR ''>'' # t) ''<#'' = startsWith s ''<#''"
    using assms(1) by (intro startsWith_barrier) simp_all
  have d2: "digits_gt (drop 2 (s @ CHR ''>'' # t)) = digits_gt (drop 2 s)" if "startsWith s ''<#''"
    using assms that by (rule prefixed_closed) simp
  show ?thesis
    unfolding channel_ref_def a using d2 by simp
qed

text \<open>
  A closing bracket after text that does not end in a digit closes no mention: the pass
  copies it and treats the text on either side on its own.
\<close>

lemma gsub_lone_gt:
  assumes closed: "\<And>s t. s \<noteq> [] \<Longrightarrow> \<not> is_digit (last s) \<Longrightarrow> m (s @ CHR ''>'' # t) = m s"
    and bound: "\<And>s n. m s = Some n \<Longrightarrow> n \<le> length s"
    and start: "\<And>s. m (CHR ''>'' # s) = None"
    and p: "p = [] \<or> \<not> is_digit (last p)"
  shows "gsub m rep (p @ CHR ''>'' # q) = gsub m rep p @ CHR ''>'' # gsub m rep q"
proof -
  have "gsub m rep (p @ CHR ''>'' # q) = gsub m rep p @ gsub m rep (CHR ''>'' # q)"
  proof (rule gsub_split_tails)
    show "n \<le> length s" if "m s = Some n" for s n using that by (rule bound)
    show "m (s @ CHR ''>'' # q) = m s" if "p = u @ s" "s \<noteq> []" for u s
    proof -
      have "last s = last p" using that by simp
      moreover have "p \<noteq> []" using that by simp
      ultimately show ?thesis using closed that(2) p by simp
    qed
  qed
  then show ?thesis using start by simp
qed


section \<open>Escapes that stand alone\<close>

lemma esc_cons: "esc_lt = CHR 0x5C # ''u003c''" "esc_gt = CHR 0x5C # ''u003e''"
  by (simp_all add: esc_lt_def esc_gt_def)

lemma not_digit_reps:
  "\<not> is_digit (CHR ''<'')" "\<not> is_digit (CHR ''>'')" "\<not> is_digit (CHR ''r'')"
  "\<not> is_digit (CHR ''e'')" "\<not> is_digit (CHR ''l'')"
  by (simp_all add: is_digit_def digit_chars_def)

text \<open>The two unescaping passes at an escape, whatever stands around it.\<close>

lemma unescape_pass_lt:
  "gsub (lit esc_lt) ''<'' (p @ esc_lt @ q)
     = gsub (lit esc_lt) ''<'' p @ ''<'' @ gsub (lit esc_lt) ''<'' q"
proof -
  have "gsub (lit esc_lt) ''<'' (p @ CHR 0x5C # ''u003c'' @ q)
          = gsub (lit esc_lt) ''<'' p @ ''<'' @ gsub (lit esc_lt) ''<'' q"
  proof (rule gsub_replace_token)
    show "lit esc_lt (s @ CHR 0x5C # t) = lit esc_lt s" if "s \<noteq> []" for s t
      using that backslash_not_in_esc(1) by (rule lit_barrier)
    show "n \<le> length s" if "lit esc_lt s = Some n" for s n
      using that by (rule lit_bound)
    show "lit esc_lt (CHR 0x5C # ''u003c'' @ q) = Some (Suc (length ''u003c''))"
      by (simp add: lit_def startsWith_def esc_lt_def)
  qed
  then show ?thesis by (simp add: esc_cons)
qed

lemma unescape_pass_lt_keeps_gt:
  "gsub (lit esc_lt) ''<'' (p @ esc_gt @ q)
     = gsub (lit esc_lt) ''<'' p @ esc_gt @ gsub (lit esc_lt) ''<'' q"
proof -
  have "gsub (lit esc_lt) ''<'' (p @ CHR 0x5C # ''u003e'' @ q)
          = gsub (lit esc_lt) ''<'' p @ CHR 0x5C # ''u003e'' @ gsub (lit esc_lt) ''<'' q"
  proof (rule gsub_keep_token)
    show "lit esc_lt (s @ CHR 0x5C # t) = lit esc_lt s" if "s \<noteq> []" for s t
      using that backslash_not_in_esc(1) by (rule lit_barrier)
    show "n \<le> length s" if "lit esc_lt s = Some n" for s n
      using that by (rule lit_bound)
    show "lit esc_lt (CHR 0x5C # ''u003e'' @ q) = None"
      by (simp add: lit_def startsWith_def esc_lt_def)
    show "lit esc_lt (d # s) = None" if "d \<in> set ''u003e''" for d s
      using that by (intro lit_start) (auto simp: esc_lt_def)
  qed
  then show ?thesis by (simp add: esc_cons)
qed

lemma unescape_pass_gt:
  "gsub (lit esc_gt) ''>'' (p @ esc_gt @ q)
     = gsub (lit esc_gt) ''>'' p @ ''>'' @ gsub (lit esc_gt) ''>'' q"
proof -
  have "gsub (lit esc_gt) ''>'' (p @ CHR 0x5C # ''u003e'' @ q)
          = gsub (lit esc_gt) ''>'' p @ ''>'' @ gsub (lit esc_gt) ''>'' q"
  proof (rule gsub_replace_token)
    show "lit esc_gt (s @ CHR 0x5C # t) = lit esc_gt s" if "s \<noteq> []" for s t
      using that backslash_not_in_esc(2) by (rule lit_barrier)
    show "n \<le> length s" if "lit esc_gt s = Some n" for s n
      using that by (rule lit_bound)
    show "lit esc_gt (CHR 0x5C # ''u003e'' @ q) = Some (Suc (length ''u003e''))"
      by (simp add: lit_def startsWith_def esc_gt_def)
  qed
  then show ?thesis by (simp add: esc_cons)
qed

text \<open>A lone \<^verbatim>\<open><\<close> in the three passes for mentions.\<close>

lemma user_mention_lone: "\<not> startsWith Q ''@'' \<Longrightarrow> user_mention (CHR ''<'' # Q) = None"
  by (cases Q) (simp_all add: user_mention_def startsWith_def)

lemma role_mention_lone: "\<not> startsWith Q ''@&'' \<Longrightarrow> role_mention (CHR ''<'' # Q) = None"
  by (cases Q) (auto simp: role_mention_def startsWith_def)

lemma channel_ref_lone: "\<not> startsWith Q ''#'' \<Longrightarrow> channel_ref (CHR ''<'' # Q) = None"
  by (cases Q) (simp_all add: channel_ref_def startsWith_def)

lemma user_output_not_role:
  assumes "\<not> startsWith Q ''@''"
  shows "\<not> startsWith (gsub user_mention ''@user'' Q) ''@&''"
proof (cases Q)
  case Nil
  then show ?thesis by (simp add: startsWith_def)
next
  case (Cons x xs)
  then have "x \<noteq> CHR ''@''" using assms by (simp add: startsWith_def)
  then show ?thesis
    using Cons by (cases "user_mention (x # xs)") (simp_all add: startsWith_def)
qed

lemma gsub_lone_lt:
  assumes barrier: "\<And>s t. s \<noteq> [] \<Longrightarrow> m (s @ CHR ''<'' # t) = m s"
    and bound: "\<And>s n. m s = Some n \<Longrightarrow> n \<le> length s"
    and first: "m (CHR ''<'' # q) = None"
  shows "gsub m rep (p @ CHR ''<'' # q) = gsub m rep p @ CHR ''<'' # gsub m rep q"
  using gsub_keep_token [of m "CHR ''<''" "[]" q rep p] assms by simp

lemma sanitize_lone_lt:
  assumes "\<not> startsWith q ''@''" "\<not> startsWith q ''#''"
  shows "sanitizeContent (p @ esc_lt @ q) = sanitizeContent p @ ''<'' @ sanitizeContent q"
proof -
  let ?u1 = "gsub (lit esc_lt) ''<''" and ?u2 = "gsub (lit esc_gt) ''>''"
  let ?m3 = "gsub user_mention ''@user''" and ?m4 = "gsub role_mention ''@role''"
  let ?m5 = "gsub channel_ref ''#channel''"
  have 1: "?u1 (p @ esc_lt @ q) = ?u1 p @ CHR ''<'' # ?u1 q"
    using unescape_pass_lt [of p q] by simp
  have 2: "?u2 (P @ CHR ''<'' # Q) = ?u2 P @ CHR ''<'' # ?u2 Q" for P Q
    using unescape_keeps [of esc_gt "[]" "''>''" P Q] by simp
  have a: "\<not> startsWith (?u2 (?u1 q)) ''@''"
    using assms(1) by (intro gsub_first) simp_all
  have b: "\<not> startsWith (?u2 (?u1 q)) ''#''"
    using assms(2) by (intro gsub_first) simp_all
  have 3: "?m3 (P @ CHR ''<'' # ?u2 (?u1 q)) = ?m3 P @ CHR ''<'' # ?m3 (?u2 (?u1 q))" for P
  proof (rule gsub_lone_lt)
    show "user_mention (s @ CHR ''<'' # t) = user_mention s" if "s \<noteq> []" for s t
      using that by (rule user_mention_barrier) (simp_all add: not_digit_lt)
    show "n \<le> length s" if "user_mention s = Some n" for s n
      using that by (rule user_mention_bound)
    show "user_mention (CHR ''<'' # ?u2 (?u1 q)) = None"
      using a by (rule user_mention_lone)
  qed
  have 4: "?m4 (P @ CHR ''<'' # ?m3 (?u2 (?u1 q))) = ?m4 P @ CHR ''<'' # ?m4 (?m3 (?u2 (?u1 q)))" for P
  proof (rule gsub_lone_lt)
    show "role_mention (s @ CHR ''<'' # t) = role_mention s" if "s \<noteq> []" for s t
      using that by (rule role_mention_barrier) (simp_all add: not_digit_lt)
    show "n \<le> length s" if "role_mention s = Some n" for s n
      using that by (rule role_mention_bound)
    show "role_mention (CHR ''<'' # ?m3 (?u2 (?u1 q))) = None"
      using a by (intro role_mention_lone user_output_not_role)
  qed
  have b3: "\<not> startsWith (?m3 (?u2 (?u1 q))) ''#''"
    using b by (rule gsub_first [rotated 2]) simp_all
  have b4: "\<not> startsWith (?m4 (?m3 (?u2 (?u1 q)))) ''#''"
    using b3 by (rule gsub_first [rotated 2]) simp_all
  have 5: "?m5 (P @ CHR ''<'' # ?m4 (?m3 (?u2 (?u1 q))))
             = ?m5 P @ CHR ''<'' # ?m5 (?m4 (?m3 (?u2 (?u1 q))))" for P
  proof (rule gsub_lone_lt)
    show "channel_ref (s @ CHR ''<'' # t) = channel_ref s" if "s \<noteq> []" for s t
      using that by (rule channel_ref_barrier) (simp_all add: not_digit_lt)
    show "n \<le> length s" if "channel_ref s = Some n" for s n
      using that by (rule channel_ref_bound)
    show "channel_ref (CHR ''<'' # ?m4 (?m3 (?u2 (?u1 q)))) = None"
      using b4 by (rule channel_ref_lone)
  qed
  show ?thesis
    unfolding sanitizeContent_def by (simp only: 1 2 3 4 5 append_Cons append_Nil)
qed

lemma sanitize_lone_gt:
  assumes "p = [] \<or> \<not> is_digit (last p)"
  shows "sanitizeContent (p @ esc_gt @ q) = sanitizeContent p @ ''>'' @ sanitizeContent q"
proof -
  let ?u1 = "gsub (lit esc_lt) ''<''" and ?u2 = "gsub (lit esc_gt) ''>''"
  let ?m3 = "gsub user_mention ''@user''" and ?m4 = "gsub role_mention ''@role''"
  let ?m5 = "gsub channel_ref ''#channel''"
  have 1: "?u1 (p @ esc_gt @ q) = ?u1 p @ esc_gt @ ?u1 q"
    by (rule unescape_pass_lt_keeps_gt)
  have 2: "?u2 (P @ esc_gt @ Q) = ?u2 P @ CHR ''>'' # ?u2 Q" for P Q
    using unescape_pass_gt [of P Q] by simp
  have c1: "?u1 p = [] \<or> \<not> is_digit (last (?u1 p))"
    using assms by (rule gsub_closed [rotated 2]) (simp_all add: not_digit_reps)
  have c2: "?u2 (?u1 p) = [] \<or> \<not> is_digit (last (?u2 (?u1 p)))"
    using c1 by (rule gsub_closed [rotated 2]) (simp_all add: not_digit_reps)
  have c3: "?m3 (?u2 (?u1 p)) = [] \<or> \<not> is_digit (last (?m3 (?u2 (?u1 p))))"
    using c2 by (rule gsub_closed [rotated 2]) (simp_all add: not_digit_reps)
  have c4: "?m4 (?m3 (?u2 (?u1 p))) = [] \<or> \<not> is_digit (last (?m4 (?m3 (?u2 (?u1 p)))))"
    using c3 by (rule gsub_closed [rotated 2]) (simp_all add: not_digit_reps)
  have 3: "?m3 (?u2 (?u1 p) @ CHR ''>'' # Q) = ?m3 (?u2 (?u1 p)) @ CHR ''>'' # ?m3 Q" for Q
    using c2 by (intro gsub_lone_gt user_mention_closed user_mention_bound user_mention_start) simp_all
  have 4: "?m4 (?m3 (?u2 (?u1 p)) @ CHR ''>'' # Q) = ?m4 (?m3 (?u2 (?u1 p))) @ CHR ''>'' # ?m4 Q" for Q
    using c3 by (intro gsub_lone_gt role_mention_closed role_mention_bound role_mention_start) simp_all
  have 5: "?m5 (?m4 (?m3 (?u2 (?u1 p))) @ CHR ''>'' # Q)
             = ?m5 (?m4 (?m3 (?u2 (?u1 p)))) @ CHR ''>'' # ?m5 Q" for Q
    using c4 by (intro gsub_lone_gt channel_ref_closed channel_ref_bound channel_ref_start) simp_all
  show ?thesis
    unfolding sanitizeContent_def by (simp only: 1 2 3 4 5 append_Cons append_Nil)
qed

text \<open>An escaped pair of brackets is treated like the pair of brackets.\<close>

lemma sanitize_escaped_pair:
  assumes "CHR 0x5C \<notin> set x"
  shows "sanitizeContent (p @ esc_lt @ x @ esc_gt @ q) = sanitizeContent (p @ ''<'' @ x @ ''>'' @ q)"
proof -
  let ?u1 = "gsub (lit esc_lt) ''<''" and ?u2 = "gsub (lit esc_gt) ''>''"
  have "?u2 (?u1 (p @ esc_lt @ x @ esc_gt @ q)) = ?u2 (?u1 p) @ CHR ''<'' # x @ CHR ''>'' # ?u2 (?u1 q)"
    using unescape_lt [OF assms, of p q] unescape_gt [OF assms, of "?u1 p" "?u1 q"] by simp
  moreover have "?u2 (?u1 (p @ CHR ''<'' # (x @ ''>'') @ q))
                   = ?u2 (?u1 p) @ CHR ''<'' # (x @ ''>'') @ ?u2 (?u1 q)"
    using assms by (intro unescape_keeps_both) simp
  ultimately show ?thesis by (simp add: sanitizeContent_def)
qed


text \<open>An escape is treated like the bracket it stands for.\<close>

lemma sanitize_esc_lt: "sanitizeContent (p @ esc_lt @ q) = sanitizeContent (p @ ''<'' @ q)"
proof -
  have "gsub (lit esc_lt) ''<'' (p @ CHR ''<'' # [] @ q)
          = gsub (lit esc_lt) ''<'' p @ CHR ''<'' # [] @ gsub (lit esc_lt) ''<'' q"
    by (rule unescape_keeps) simp_all
  then have "gsub (lit esc_lt) ''<'' (p @ esc_lt @ q) = gsub (lit esc_lt) ''<'' (p @ ''<'' @ q)"
    using unescape_pass_lt [of p q] by simp
  then show ?thesis by (simp add: sanitizeContent_def)
qed

lemma unescape_keeps_gt:
  assumes "pat = esc_lt \<or> pat = esc_gt"
  shows "gsub (lit pat) rep (p @ CHR ''>'' # q) = gsub (lit pat) rep p @ CHR ''>'' # gsub (lit pat) rep q"
proof -
  have "gsub (lit pat) rep (p @ CHR ''>'' # [] @ q)
          = gsub (lit pat) rep p @ CHR ''>'' # [] @ gsub (lit pat) rep q"
  proof (rule gsub_keep_token)
    show "lit pat (s @ CHR ''>'' # t) = lit pat s" if "s \<noteq> []" for s t
      using that assms by (intro lit_barrier) (auto simp: esc_lt_def esc_gt_def)
    show "n \<le> length s" if "lit pat s = Some n" for s n
      using that by (rule lit_bound)
    show "lit pat (CHR ''>'' # [] @ q) = None"
      using assms by (intro lit_start) (auto simp: esc_lt_def esc_gt_def)
    show "lit pat (d # s) = None" if "d \<in> set []" for d s
      using that by simp
  qed
  then show ?thesis by simp
qed

lemma sanitize_esc_gt: "sanitizeContent (p @ esc_gt @ q) = sanitizeContent (p @ ''>'' @ q)"
proof -
  let ?u1 = "gsub (lit esc_lt) ''<''" and ?u2 = "gsub (lit esc_gt) ''>''"
  have "?u2 (?u1 (p @ esc_gt @ q)) = ?u2 (?u1 p) @ ''>'' @ ?u2 (?u1 q)"
    by (simp only: unescape_pass_lt_keeps_gt unescape_pass_gt)
  moreover have "?u2 (?u1 (p @ CHR ''>'' # q)) = ?u2 (?u1 p) @ CHR ''>'' # ?u2 (?u1 q)"
    by (simp add: unescape_keeps_gt)
  ultimately show ?thesis by (simp add: sanitizeContent_def)
qed

lemma sanitize_empty: "sanitizeContent [] = []"
  by (simp add: sanitizeContent_def)

text \<open>
  C5. The sanitizer unescapes before it replaces mentions. An escaped bracket, backslash
  \<^verbatim>\<open>u003c\<close> or backslash \<^verbatim>\<open>u003e\<close>, gives the result that the bracket itself gives in its place,
  whatever stands around it; so the escaped text of a user mention, backslash \<^verbatim>\<open>u003c@123\<close>
  backslash \<^verbatim>\<open>u003e\<close>, becomes \<^verbatim>\<open>@user\<close> wherever it stands, the text before it and the text
  after it being sanitized on their own. For every id (a non-empty run of digits) the
  tokens \<^verbatim>\<open><@id>\<close> and \<^verbatim>\<open><@!id>\<close> become \<^verbatim>\<open>@user\<close>, \<^verbatim>\<open><@&id>\<close> becomes \<^verbatim>\<open>@role\<close> and \<^verbatim>\<open><#id>\<close> becomes
  \<^verbatim>\<open>#channel\<close>. All other text is unchanged: a text in which none of the five expressions
  matches at any position is returned as it is, and so is a stretch of text with neither
  \<^verbatim>\<open><\<close> nor a backslash in front of any text. An escape that stands alone becomes its
  bracket: an escaped \<^verbatim>\<open><\<close> that neither \<^verbatim>\<open>@\<close> nor \<^verbatim>\<open>#\<close> follows, and an escaped \<^verbatim>\<open>>\<close> that no
  digit precedes, with the text on either side sanitized on its own.
\<close>

theorem sanitizeContent_tokens:
  "sanitizeContent (p @ esc_lt @ ''@123'' @ esc_gt @ q)
     = sanitizeContent p @ ''@user'' @ sanitizeContent q \<and>
   (ds \<noteq> [] \<and> (\<forall>c \<in> set ds. is_digit c) \<longrightarrow>
      sanitizeContent (p @ esc_lt @ ''@'' @ ds @ esc_gt @ q)
        = sanitizeContent p @ ''@user'' @ sanitizeContent q \<and>
      sanitizeContent (p @ ''<@'' @ ds @ ''>'' @ q)
        = sanitizeContent p @ ''@user'' @ sanitizeContent q \<and>
      sanitizeContent (p @ ''<@!'' @ ds @ ''>'' @ q)
        = sanitizeContent p @ ''@user'' @ sanitizeContent q \<and>
      sanitizeContent (p @ ''<@&'' @ ds @ ''>'' @ q)
        = sanitizeContent p @ ''@role'' @ sanitizeContent q \<and>
      sanitizeContent (p @ ''<#'' @ ds @ ''>'' @ q)
        = sanitizeContent p @ ''#channel'' @ sanitizeContent q) \<and>
   ((\<forall>c \<in> set u. c \<noteq> CHR ''<'' \<and> c \<noteq> CHR 0x5C) \<longrightarrow>
      sanitizeContent (u @ v) = u @ sanitizeContent v) \<and>
   ((\<forall>i<length s. lit esc_lt (drop i s) = None \<and> lit esc_gt (drop i s) = None \<and>
        user_mention (drop i s) = None \<and> role_mention (drop i s) = None \<and>
        channel_ref (drop i s) = None) \<longrightarrow>
      sanitizeContent s = s) \<and>
   sanitizeContent (p @ esc_lt @ q) = sanitizeContent (p @ ''<'' @ q) \<and>
   sanitizeContent (p @ esc_gt @ q) = sanitizeContent (p @ ''>'' @ q) \<and>
   (\<not> startsWith q ''@'' \<and> \<not> startsWith q ''#'' \<longrightarrow>
      sanitizeContent (p @ esc_lt @ q) = sanitizeContent p @ ''<'' @ sanitizeContent q) \<and>
   (p = [] \<or> \<not> is_digit (last p) \<longrightarrow>
      sanitizeContent (p @ esc_gt @ q) = sanitizeContent p @ ''>'' @ sanitizeContent q) \<and>
   sanitizeContent esc_lt = ''<'' \<and> sanitizeContent esc_gt = ''>''"
proof (intro conjI impI)
  have "sanitizeContent (p @ esc_lt @ ''@'' @ ''123'' @ esc_gt @ q)
          = sanitizeContent p @ ''@user'' @ sanitizeContent q"
    by (rule sanitize_escaped_user) (simp_all add: is_digit_def digit_chars_def)
  then show "sanitizeContent (p @ esc_lt @ ''@123'' @ esc_gt @ q)
               = sanitizeContent p @ ''@user'' @ sanitizeContent q"
    by simp
next
  assume a: "ds \<noteq> [] \<and> (\<forall>c \<in> set ds. is_digit c)"
  show "sanitizeContent (p @ esc_lt @ ''@'' @ ds @ esc_gt @ q)
          = sanitizeContent p @ ''@user'' @ sanitizeContent q"
    using a by (intro sanitize_escaped_user) simp_all
  show "sanitizeContent (p @ ''<@'' @ ds @ ''>'' @ q)
          = sanitizeContent p @ ''@user'' @ sanitizeContent q"
    using a sanitize_user [of ds "''@''" p q] by simp
  show "sanitizeContent (p @ ''<@!'' @ ds @ ''>'' @ q)
          = sanitizeContent p @ ''@user'' @ sanitizeContent q"
    using a sanitize_user [of ds "''@!''" p q] by simp
  show "sanitizeContent (p @ ''<@&'' @ ds @ ''>'' @ q)
          = sanitizeContent p @ ''@role'' @ sanitizeContent q"
    using a by (intro sanitize_role) simp_all
  show "sanitizeContent (p @ ''<#'' @ ds @ ''>'' @ q)
          = sanitizeContent p @ ''#channel'' @ sanitizeContent q"
    using a by (intro sanitize_channel) simp_all
next
  assume "\<forall>c \<in> set u. c \<noteq> CHR ''<'' \<and> c \<noteq> CHR 0x5C"
  then show "sanitizeContent (u @ v) = u @ sanitizeContent v"
    by (rule sanitize_plain)
next
  assume "\<forall>i<length s. lit esc_lt (drop i s) = None \<and> lit esc_gt (drop i s) = None \<and>
        user_mention (drop i s) = None \<and> role_mention (drop i s) = None \<and>
        channel_ref (drop i s) = None"
  then show "sanitizeContent s = s"
    by (rule sanitize_unchanged)
next
  show "sanitizeContent (p @ esc_lt @ q) = sanitizeContent (p @ ''<'' @ q)"
    by (rule sanitize_esc_lt)
  show "sanitizeContent (p @ esc_gt @ q) = sanitizeContent (p @ ''>'' @ q)"
    by (rule sanitize_esc_gt)
next
  assume "\<not> startsWith q ''@'' \<and> \<not> startsWith q ''#''"
  then show "sanitizeContent (p @ esc_lt @ q) = sanitizeContent p @ ''<'' @ sanitizeContent q"
    by (intro sanitize_lone_lt) simp_all
next
  assume "p = [] \<or> \<not> is_digit (last p)"
  then show "sanitizeContent (p @ esc_gt @ q) = sanitizeContent p @ ''>'' @ sanitizeContent q"
    by (rule sanitize_lone_gt)
next
  show "sanitizeContent esc_lt = ''<''"
    using sanitize_lone_lt [of "[]" "[]"] by (simp add: sanitize_empty startsWith_def)
  show "sanitizeContent esc_gt = ''>''"
    using sanitize_lone_gt [of "[]" "[]"] by (simp add: sanitize_empty)
qed

theorem sanitizeContent_tokens_witness:
  "''42'' \<noteq> [] \<and> is_digit (CHR ''4'') \<and> is_digit (CHR ''2'') \<and>
   CHR ''<'' \<notin> set ''hey '' \<and> CHR 0x5C \<notin> set ''hey '' \<and>
   sanitizeContent (''hey '' @ esc_lt @ ''@123'' @ esc_gt @ ''!'') = ''hey @user!'' \<and>
   sanitizeContent (''hey '' @ ''<@42>'' @ ''!'') = ''hey @user!'' \<and>
   sanitizeContent (''hey '' @ ''<@!42>'' @ ''!'') = ''hey @user!'' \<and>
   sanitizeContent (''hey '' @ ''<@&42>'' @ ''!'') = ''hey @role!'' \<and>
   sanitizeContent (''hey '' @ ''<#42>'' @ ''!'') = ''hey #channel!'' \<and>
   user_mention ''< b'' = None \<and> role_mention ''< b'' = None \<and> channel_ref ''< b'' = None \<and>
   sanitizeContent ''a < b'' = ''a < b'' \<and>
   \<not> startsWith '' 2'' ''@'' \<and> \<not> startsWith '' 2'' ''#'' \<and> \<not> is_digit (last ''1 '') \<and>
   sanitizeContent (''1 '' @ esc_lt @ '' 2'') = ''1 < 2'' \<and>
   sanitizeContent (''1 '' @ esc_gt @ '' 2'') = ''1 > 2''"
proof -
  have d: "''42'' \<noteq> [] \<and> (\<forall>c \<in> set ''42''. is_digit c)"
    by (simp add: is_digit_def digit_chars_def)
  have c: "is_digit (CHR ''4'') \<and> is_digit (CHR ''2'')"
    by (simp add: is_digit_def digit_chars_def)
  have u: "\<forall>c \<in> set ''hey ''. c \<noteq> CHR ''<'' \<and> c \<noteq> CHR 0x5C"
    by simp
  have n: "\<forall>i<length ''a < b''. lit esc_lt (drop i ''a < b'') = None \<and>
        lit esc_gt (drop i ''a < b'') = None \<and>
        user_mention (drop i ''a < b'') = None \<and> role_mention (drop i ''a < b'') = None \<and>
        channel_ref (drop i ''a < b'') = None"
    by (simp add: All_less_Suc lit_def startsWith_def esc_lt_def esc_gt_def user_mention_def
          role_mention_def channel_ref_def)
  have m: "user_mention ''< b'' = None \<and> role_mention ''< b'' = None \<and> channel_ref ''< b'' = None"
    by (simp add: startsWith_def user_mention_def role_mention_def channel_ref_def)
  have l: "\<not> startsWith '' 2'' ''@'' \<and> \<not> startsWith '' 2'' ''#''"
    by (simp add: startsWith_def)
  have g: "''1 '' = [] \<or> \<not> is_digit (last ''1 '')"
    by (simp add: is_digit_def digit_chars_def)
  have e: "sanitizeContent ''!'' = ''!''" "sanitizeContent ''1 '' = ''1 ''"
    "sanitizeContent '' 2'' = '' 2''"
    by code_simp+
  note t1 = sanitizeContent_tokens [where p = "''hey ''" and q = "''!''" and ds = "''42''"
      and u = "''hey ''" and v = "[]" and s = "''a < b''"]
  note t2 = sanitizeContent_tokens [where p = "''1 ''" and q = "'' 2''" and ds = "''42''"
      and u = "''hey ''" and v = "[]" and s = "''a < b''"]
  have "sanitizeContent (''hey '' @ []) = ''hey '' @ sanitizeContent []"
    using t1 u by blast
  then have h: "sanitizeContent ''hey '' = ''hey ''"
    by (simp add: sanitize_empty)
  have a: "sanitizeContent ''a < b'' = ''a < b''"
    using t1 n by blast
  have "sanitizeContent (''1 '' @ esc_lt @ '' 2'') = sanitizeContent ''1 '' @ ''<'' @ sanitizeContent '' 2''"
    using t2 l by blast
  then have lt: "sanitizeContent (''1 '' @ esc_lt @ '' 2'') = ''1 < 2''"
    by (simp add: e)
  have "sanitizeContent (''1 '' @ esc_gt @ '' 2'') = sanitizeContent ''1 '' @ ''>'' @ sanitizeContent '' 2''"
    using t2 g by blast
  then have gt: "sanitizeContent (''1 '' @ esc_gt @ '' 2'') = ''1 > 2''"
    by (simp add: e)
  have old: "sanitizeContent (''hey '' @ esc_lt @ ''@123'' @ esc_gt @ ''!'') = ''hey @user!'' \<and>
   sanitizeContent (''hey '' @ ''<@42>'' @ ''!'') = ''hey @user!'' \<and>
   sanitizeContent (''hey '' @ ''<@!42>'' @ ''!'') = ''hey @user!'' \<and>
   sanitizeContent (''hey '' @ ''<@&42>'' @ ''!'') = ''hey @role!'' \<and>
   sanitizeContent (''hey '' @ ''<#42>'' @ ''!'') = ''hey #channel!''"
  proof -
    have k: "sanitizeContent (''hey '' @ esc_lt @ ''@123'' @ esc_gt @ ''!'')
               = sanitizeContent ''hey '' @ ''@user'' @ sanitizeContent ''!''"
      using t1 by blast
    have "sanitizeContent (''hey '' @ ''<@'' @ ''42'' @ ''>'' @ ''!'')
               = sanitizeContent ''hey '' @ ''@user'' @ sanitizeContent ''!''"
      "sanitizeContent (''hey '' @ ''<@!'' @ ''42'' @ ''>'' @ ''!'')
               = sanitizeContent ''hey '' @ ''@user'' @ sanitizeContent ''!''"
      "sanitizeContent (''hey '' @ ''<@&'' @ ''42'' @ ''>'' @ ''!'')
               = sanitizeContent ''hey '' @ ''@role'' @ sanitizeContent ''!''"
      "sanitizeContent (''hey '' @ ''<#'' @ ''42'' @ ''>'' @ ''!'')
               = sanitizeContent ''hey '' @ ''#channel'' @ sanitizeContent ''!''"
      using t1 d by blast+
    then show ?thesis using k by (simp add: e(1) h)
  qed
  show ?thesis
    using d c u old m a l g lt gt by simp
qed

end
